theory Spec2Isabelle
  imports Main "HOL-Library.AList" "HOL-Library.Sublist"
begin

section \<open>Text of a document: characters and the Python string operations used\<close>

text \<open>
  A Python \<open>str\<close> is modelled as a \<open>string\<close>: a list of 8-bit characters, read as the
  code points 0..255. The character classes below are the ones Python's \<open>re\<close> and
  \<open>str\<close> use on that range: \<open>\d\<close> is the ten decimal digits, \<open>\s\<close> and
  \<open>str.strip\<close> use the white space of \<open>str.isspace\<close> (TAB..CR, FS..US, the space,
  NEL and the no-break space).
\<close>

definition is_digit :: "char \<Rightarrow> bool" where
  "is_digit c = (c \<in> set ''0123456789'')"

definition is_space :: "char \<Rightarrow> bool" where
  "is_space c = (c \<in> set [CHR 0x09, CHR 0x0A, CHR 0x0B, CHR 0x0C, CHR 0x0D,
                           CHR 0x1C, CHR 0x1D, CHR 0x1E, CHR 0x1F, CHR '' '',
                           CHR 0x85, CHR 0xA0])"

text \<open>
  \<open>str.upper\<close> and \<open>str.lower\<close> on the ASCII letters. \<open>upper\<close> is only applied to
  matches of the code pattern and \<open>lower\<close> only feeds the \<open>.pdf\<close> suffix test, where no
  other case mapping changes the outcome.
\<close>

definition upper_char :: "char \<Rightarrow> char" where
  "upper_char c =
     (case map_of (zip ''abcdefghijklmnopqrstuvwxyz'' ''ABCDEFGHIJKLMNOPQRSTUVWXYZ'') c of
        Some d \<Rightarrow> d
      | None \<Rightarrow> c)"

definition lower_char :: "char \<Rightarrow> char" where
  "lower_char c =
     (case map_of (zip ''ABCDEFGHIJKLMNOPQRSTUVWXYZ'' ''abcdefghijklmnopqrstuvwxyz'') c of
        Some d \<Rightarrow> d
      | None \<Rightarrow> c)"

definition upper :: "string \<Rightarrow> string" where
  "upper s = map upper_char s"

definition lower :: "string \<Rightarrow> string" where
  "lower s = map lower_char s"

definition endswith :: "string \<Rightarrow> string \<Rightarrow> bool" where
  "endswith s suf = (length suf \<le> length s \<and> drop (length s - length suf) s = suf)"

definition strip :: "string \<Rightarrow> string" where
  "strip s = rev (dropWhile is_space (rev (dropWhile is_space s)))"

section \<open>The code matcher: \<open>buscar_cif_en_pdf\<close>\<close>

text \<open>
  \<open>patron_cif = re.compile(r'[ABG]\d{8}', re.IGNORECASE)\<close>: one of the letters A, B, G in
  either case, then eight digits. \<open>match_cif_at s\<close> says that the pattern matches at the
  start of \<open>s\<close>.
\<close>

definition is_cif_letter :: "char \<Rightarrow> bool" where
  "is_cif_letter c = (c \<in> set ''ABGabg'')"

definition match_cif_at :: "string \<Rightarrow> bool" where
  "match_cif_at s =
     (case s of
        [] \<Rightarrow> False
      | c # rest \<Rightarrow> is_cif_letter c \<and> 8 \<le> length rest \<and> list_all is_digit (take 8 rest))"

text \<open>
  \<open>patron_cif.findall\<close>: the text is scanned from the left; a match is recorded and the
  scan goes on after its last character, otherwise it moves one character on.
\<close>

function findall_cif :: "string \<Rightarrow> string list" where
  "findall_cif s =
     (if s = [] then []
      else if match_cif_at s then take 9 s # findall_cif (drop 9 s)
      else findall_cif (tl s))"
  by pat_completeness auto
termination
  by (relation "measure length") (auto simp: less_Suc_eq_le)

declare findall_cif.simps [simp del]

text \<open>\<open>re.sub(r'[\s._-]', '', texto_completo)\<close>.\<close>

definition is_separator :: "char \<Rightarrow> bool" where
  "is_separator c = (is_space c \<or> c \<in> set ''._-'')"

definition limpiar_texto :: "string \<Rightarrow> string" where
  "limpiar_texto texto = filter (\<lambda>c. \<not> is_separator c) texto"

text \<open>
  What \<open>pdfplumber\<close> gives for a file: opening it raises, or it yields pages, and
  \<open>extract_text\<close> of a page raises, returns \<open>None\<close> or returns a string.
\<close>

datatype page = PageRaises | PageText "string option"

datatype pdf = OpenRaises | Opened "page list"

datatype exn = PdfException

text \<open>
  The body of the \<open>try\<close>: the text of the pages that have some, in page order. An
  exception of a page ends the loop.
\<close>

fun texto_paginas :: "page list \<Rightarrow> string \<Rightarrow> exn + string" where
  "texto_paginas [] texto_completo = Inr texto_completo"
| "texto_paginas (PageRaises # _) texto_completo = Inl PdfException"
| "texto_paginas (PageText None # ps) texto_completo = texto_paginas ps texto_completo"
| "texto_paginas (PageText (Some t) # ps) texto_completo =
     (if t \<noteq> [] then texto_paginas ps (texto_completo @ t)
      else texto_paginas ps texto_completo)"

definition extraer_texto :: "pdf \<Rightarrow> exn + string" where
  "extraer_texto doc =
     (case doc of
        OpenRaises \<Rightarrow> Inl PdfException
      | Opened ps \<Rightarrow> texto_paginas ps [])"

text \<open>
  \<open>list(set(...))\<close> lists each distinct element once, in the iteration order of a
  Python set, which the language leaves open. The order is the parameter \<open>orden\<close>;
  \<open>set_order orden\<close> says what every such order satisfies.
\<close>

definition set_order :: "(string list \<Rightarrow> string list) \<Rightarrow> bool" where
  "set_order orden = (\<forall>xs. distinct (orden xs) \<and> set (orden xs) = set xs)"

definition buscar_cif_en_pdf :: "(string list \<Rightarrow> string list) \<Rightarrow> pdf \<Rightarrow> string list" where
  "buscar_cif_en_pdf orden doc =
     (case extraer_texto doc of
        Inl _ \<Rightarrow> []
      | Inr texto_completo \<Rightarrow>
          orden (map upper (findall_cif (limpiar_texto texto_completo))))"

section \<open>The classifier\<close>

definition CIFS_LIST :: "string list" where
  "CIFS_LIST =
     [''B85536134'', ''A80652928'', ''B84425131'', ''A81989360'',
      ''B81500043'', ''A79492286'', ''G83844316'', ''A81944720'',
      ''B60924131'', ''B47384649'', ''A31604903'']"

definition UNIDENTIFIED_FOLDER_NAME :: string where
  "UNIDENTIFIED_FOLDER_NAME = ''Sin identificar''"

text \<open>
  The lines of the log, one constructor for each \<open>log_messages.append\<close> of the source,
  with the values its message is formatted from.
\<close>

datatype log_entry =
    Renombrado string string
  | SinCif string
  | MultiplesCifs string string string
  | CifUnico string string
  | CarpetaEliminada string

text \<open>
  The destination of a PDF, from the codes found in it: the components that the source
  joins to \<open>base_dir\<close>, and the line it logs.
\<close>

definition clasificar :: "string \<Rightarrow> string list \<Rightarrow> string list \<times> log_entry" where
  "clasificar filename cifs_encontrados =
     (let cifs_principales = filter (\<lambda>cif. cif \<in> set CIFS_LIST) cifs_encontrados in
      case cifs_principales of
        [] \<Rightarrow> ([UNIDENTIFIED_FOLDER_NAME], SinCif filename)
      | cif_principal # _ \<Rightarrow>
          (let otros_cifs = filter (\<lambda>cif. cif \<noteq> cif_principal) cifs_encontrados in
           case otros_cifs of
             cif_secundario # _ \<Rightarrow>
               ([cif_principal, cif_secundario],
                MultiplesCifs filename cif_principal cif_secundario)
           | [] \<Rightarrow> ([cif_principal], CifUnico filename cif_principal)))"

text \<open>\<open>os.path.join\<close> of \<open>posixpath\<close>.\<close>

definition join2 :: "string \<Rightarrow> string \<Rightarrow> string" where
  "join2 path b =
     (if b \<noteq> [] \<and> hd b = CHR ''/'' then b
      else if path = [] \<or> last path = CHR ''/'' then path @ b
      else path @ ''/'' @ b)"

definition os_path_join :: "string \<Rightarrow> string list \<Rightarrow> string" where
  "os_path_join a p = foldl join2 a p"

definition destination_folder :: "string \<Rightarrow> string \<Rightarrow> string list \<Rightarrow> string" where
  "destination_folder base_dir filename cifs_encontrados =
     os_path_join base_dir (fst (clasificar filename cifs_encontrados))"

section \<open>The working directory\<close>

text \<open>
  A directory is the list of its entries, in the order \<open>os.listdir\<close> gives them; an
  entry is a regular file with its content or a directory. \<open>base_dir\<close> is the list of
  the entries of the working directory, and a path below it is the list of its
  components. A well-formed directory has no name twice.
\<close>

datatype node = File string | Dir "(string \<times> node) list"

type_synonym entries = "(string \<times> node) list"

datatype os_error =
    FileExistsError
  | IsADirectoryError
  | NotADirectoryError
  | FileNotFoundError
  | ShutilError
  | OSError

record state =
  root :: entries
  log_messages :: "log_entry list"

definition listdir :: "entries \<Rightarrow> string list" where
  "listdir es = map fst es"

definition isfile :: "entries \<Rightarrow> string \<Rightarrow> bool" where
  "isfile es name = (case map_of es name of Some (File _) \<Rightarrow> True | _ \<Rightarrow> False)"

text \<open>The node at a path below a directory, when there is one.\<close>

fun resolve :: "entries \<Rightarrow> string list \<Rightarrow> node option" where
  "resolve es [] = Some (Dir es)"
| "resolve es (c # cs) =
     (case map_of es c of
        None \<Rightarrow> None
      | Some (File content) \<Rightarrow> (if cs = [] then Some (File content) else None)
      | Some (Dir sub) \<Rightarrow> resolve sub cs)"

text \<open>
  \<open>os.makedirs(path, exist_ok=True)\<close> for a path below the directory: missing
  directories are created, existing ones are kept, and a regular file on the way raises.
\<close>

fun makedirs :: "entries \<Rightarrow> string list \<Rightarrow> os_error + entries" where
  "makedirs es [] = Inr es"
| "makedirs es (c # cs) =
     (case map_of es c of
        None \<Rightarrow>
          (case makedirs [] cs of
             Inl e \<Rightarrow> Inl e
           | Inr sub \<Rightarrow> Inr (es @ [(c, Dir sub)]))
      | Some (File _) \<Rightarrow> Inl (if cs = [] then FileExistsError else NotADirectoryError)
      | Some (Dir sub) \<Rightarrow>
          (case makedirs sub cs of
             Inl e \<Rightarrow> Inl e
           | Inr sub' \<Rightarrow> Inr (AList.update c (Dir sub') es)))"

text \<open>
  \<open>os.rename(src, dst)\<close> of POSIX for a regular file \<open>src\<close> and a name \<open>dst\<close> in the same
  directory: an existing regular file \<open>dst\<close> is replaced without notice, a directory
  \<open>dst\<close> raises. An empty \<open>dst\<close> and the names \<open>.\<close> and \<open>..\<close> denote directories.
\<close>

definition os_rename :: "entries \<Rightarrow> string \<Rightarrow> string \<Rightarrow> os_error + entries" where
  "os_rename es src dst =
     (case map_of es src of
        None \<Rightarrow> Inl FileNotFoundError
      | Some nd \<Rightarrow>
          if dst = [] then Inl NotADirectoryError
          else if dst = ''.'' \<or> dst = ''..'' then Inl OSError
          else (case map_of es dst of
                  Some (Dir _) \<Rightarrow> Inl IsADirectoryError
                | _ \<Rightarrow> Inr (AList.update dst nd (AList.delete src es))))"

text \<open>
  The destination side of \<open>shutil.move(src, os.path.join(dest, name))\<close>: in the directory
  at \<open>dest\<close>, an existing directory called \<open>name\<close> receives the file inside itself (and
  raises when it already has an entry of that name); otherwise the file is renamed to
  \<open>dest/name\<close>, replacing a regular file of that name.
\<close>

fun shutil_put :: "entries \<Rightarrow> string list \<Rightarrow> string \<Rightarrow> node \<Rightarrow> os_error + entries" where
  "shutil_put es [] name nd =
     (case map_of es name of
        Some (Dir sub) \<Rightarrow>
          (if name \<in> set (listdir sub) then Inl ShutilError
           else Inr (AList.update name (Dir (sub @ [(name, nd)])) es))
      | _ \<Rightarrow> Inr (AList.update name nd es))"
| "shutil_put es (c # cs) name nd =
     (case map_of es c of
        None \<Rightarrow> Inl FileNotFoundError
      | Some (File _) \<Rightarrow> Inl NotADirectoryError
      | Some (Dir sub) \<Rightarrow>
          (case shutil_put sub cs name nd of
             Inl e \<Rightarrow> Inl e
           | Inr sub' \<Rightarrow> Inr (AList.update c (Dir sub') es)))"

text \<open>
  \<open>shutil.move\<close> of the entry \<open>name\<close> of the working directory to the directory at
  \<open>dest\<close>, a path of at least one component.
\<close>

definition shutil_move :: "entries \<Rightarrow> string \<Rightarrow> string list \<Rightarrow> os_error + entries" where
  "shutil_move es name dest =
     (case map_of es name of
        None \<Rightarrow> Inl FileNotFoundError
      | Some nd \<Rightarrow>
          (case shutil_put es dest name nd of
             Inl e \<Rightarrow> Inl e
           | Inr es' \<Rightarrow> Inr (AList.delete name es')))"

text \<open>
  \<open>os.path.splitext\<close> on a file name (no separator): the extension starts at the last
  dot, unless only dots stand before it.
\<close>

definition splitext :: "string \<Rightarrow> string \<times> string" where
  "splitext p =
     (let n = length (takeWhile (\<lambda>c. c \<noteq> CHR ''.'') (rev p)) in
      if n = length p then (p, [])
      else (let dotIndex = length p - n - 1 in
            if list_ex (\<lambda>c. c \<noteq> CHR ''.'') (take dotIndex p)
            then (take dotIndex p, drop dotIndex p)
            else (p, [])))"

section \<open>The file organizer: \<open>procesar_y_clasificar\<close>\<close>

text \<open>Creating the destination folders.\<close>

fun crear_carpetas :: "string list \<Rightarrow> entries \<Rightarrow> os_error + entries" where
  "crear_carpetas [] es = Inr es"
| "crear_carpetas (folder_name # rest) es =
     (case makedirs es [folder_name] of
        Inl e \<Rightarrow> Inl e
      | Inr es' \<Rightarrow> crear_carpetas rest es')"

text \<open>
  Cleaning the file names: the loop runs over the listing taken at its start and tests
  each name against the directory as it is then.
\<close>

fun limpiar_nombres :: "string list \<Rightarrow> state \<Rightarrow> os_error + state" where
  "limpiar_nombres [] st = Inr st"
| "limpiar_nombres (filename # rest) st =
     (if isfile (root st) filename then
        (let clean_filename = strip filename in
         if filename \<noteq> clean_filename then
           (case os_rename (root st) filename clean_filename of
              Inl e \<Rightarrow> Inl e
            | Inr es \<Rightarrow>
                limpiar_nombres rest
                  \<lparr>root = es,
                   log_messages = log_messages st @ [Renombrado filename clean_filename]\<rparr>)
         else limpiar_nombres rest st)
      else limpiar_nombres rest st)"

text \<open>Moving the PDF and the files that share its base name.\<close>

fun mover_archivos :: "string list \<Rightarrow> string \<Rightarrow> string list \<Rightarrow> entries \<Rightarrow> os_error + entries" where
  "mover_archivos [] pdf_basename dest es = Inr es"
| "mover_archivos (file_to_move # rest) pdf_basename dest es =
     (if fst (splitext file_to_move) = pdf_basename then
        (if isfile es file_to_move then
           (case shutil_move es file_to_move dest of
              Inl e \<Rightarrow> Inl e
            | Inr es' \<Rightarrow> mover_archivos rest pdf_basename dest es')
         else mover_archivos rest pdf_basename dest es)
      else mover_archivos rest pdf_basename dest es)"

text \<open>
  \<open>pdfplumber.open\<close> on an entry of the working directory: \<open>leer\<close> is what the library
  makes of a file's content; a name that is no regular file raises.
\<close>

definition abrir :: "(string \<Rightarrow> pdf) \<Rightarrow> entries \<Rightarrow> string \<Rightarrow> pdf" where
  "abrir leer es filename =
     (case map_of es filename of
        Some (File content) \<Rightarrow> leer content
      | _ \<Rightarrow> OpenRaises)"

definition procesar_pdf ::
  "(string list \<Rightarrow> string list) \<Rightarrow> (string \<Rightarrow> pdf) \<Rightarrow> string \<Rightarrow> state \<Rightarrow> os_error + state" where
  "procesar_pdf orden leer filename st =
     (let cifs_encontrados = buscar_cif_en_pdf orden (abrir leer (root st) filename);
          (dest, entry) = clasificar filename cifs_encontrados
      in case makedirs (root st) dest of
           Inl e \<Rightarrow> Inl e
         | Inr es \<Rightarrow>
             (let pdf_basename = fst (splitext filename) in
              case mover_archivos (listdir es) pdf_basename dest es of
                Inl e \<Rightarrow> Inl e
              | Inr es' \<Rightarrow> Inr \<lparr>root = es', log_messages = log_messages st @ [entry]\<rparr>))"

fun procesar_pdfs ::
  "(string list \<Rightarrow> string list) \<Rightarrow> (string \<Rightarrow> pdf) \<Rightarrow> string list \<Rightarrow> state \<Rightarrow> os_error + state" where
  "procesar_pdfs orden leer [] st = Inr st"
| "procesar_pdfs orden leer (filename # rest) st =
     (if endswith (lower filename) ''.pdf'' then
        (case procesar_pdf orden leer filename st of
           Inl e \<Rightarrow> Inl e
         | Inr st' \<Rightarrow> procesar_pdfs orden leer rest st')
      else procesar_pdfs orden leer rest st)"

text \<open>
  Removing the empty folders. \<open>os.walk(base_dir, topdown=False)\<close> yields a directory
  after everything below it, so \<open>limpiar_vacias\<close> of the entries of a directory first
  treats what is below an entry, then the entry itself, then the entries after it.
  \<open>os.rmdir\<close> raises on a directory that is not empty.
\<close>

definition os_rmdir :: "node \<Rightarrow> os_error + unit" where
  "os_rmdir nd =
     (case nd of
        File _ \<Rightarrow> Inl NotADirectoryError
      | Dir [] \<Rightarrow> Inr ()
      | Dir (_ # _) \<Rightarrow> Inl OSError)"

function limpiar_vacias :: "entries \<Rightarrow> os_error + entries \<times> log_entry list" where
  "limpiar_vacias [] = Inr ([], [])"
| "limpiar_vacias ((name, File content) # es) =
     (case limpiar_vacias es of
        Inl e \<Rightarrow> Inl e
      | Inr (es', lg) \<Rightarrow> Inr ((name, File content) # es', lg))"
| "limpiar_vacias ((name, Dir sub) # es) =
     (case limpiar_vacias sub of
        Inl e \<Rightarrow> Inl e
      | Inr (sub', lg1) \<Rightarrow>
          (if sub' = [] then
             (case os_rmdir (Dir sub') of
                Inl e \<Rightarrow> Inl e
              | Inr _ \<Rightarrow>
                  (case limpiar_vacias es of
                     Inl e \<Rightarrow> Inl e
                   | Inr (es', lg2) \<Rightarrow> Inr (es', lg1 @ [CarpetaEliminada name] @ lg2)))
           else
             (case limpiar_vacias es of
                Inl e \<Rightarrow> Inl e
              | Inr (es', lg2) \<Rightarrow> Inr ((name, Dir sub') # es', lg1 @ lg2))))"
  by pat_completeness auto
termination
  by (relation "measure (size_list (size_prod (\<lambda>_. 0) size))") auto

definition procesar_y_clasificar ::
  "(string list \<Rightarrow> string list) \<Rightarrow> (string \<Rightarrow> pdf) \<Rightarrow> state \<Rightarrow> os_error + state" where
  "procesar_y_clasificar orden leer st =
     (case crear_carpetas (CIFS_LIST @ [UNIDENTIFIED_FOLDER_NAME]) (root st) of
        Inl e \<Rightarrow> Inl e
      | Inr es1 \<Rightarrow>
          (case limpiar_nombres (listdir es1) (st\<lparr>root := es1\<rparr>) of
             Inl e \<Rightarrow> Inl e
           | Inr st2 \<Rightarrow>
               (case procesar_pdfs orden leer (listdir (root st2)) st2 of
                  Inl e \<Rightarrow> Inl e
                | Inr st3 \<Rightarrow>
                    (case limpiar_vacias (root st3) of
                       Inl e \<Rightarrow> Inl e
                     | Inr (es4, lg) \<Rightarrow>
                         Inr \<lparr>root = es4, log_messages = log_messages st3 @ lg\<rparr>))))"

section \<open>The archive\<close>

definition ZIP_NAME :: string where
  "ZIP_NAME = ''facturas_clasificadas.zip''"

text \<open>\<open>os.path.relpath\<close> of a file below the working directory: its components, joined.\<close>

fun relpath :: "string list \<Rightarrow> string" where
  "relpath [] = ''.''"
| "relpath [c] = c"
| "relpath (c # cs) = c @ ''/'' @ relpath cs"

text \<open>
  \<open>os.walk(temp_dir)\<close> with the loop over \<open>files\<close>: the regular files of a directory
  first, each written under its relative path unless its name is the archive's, then the
  directories below it in turn.
\<close>

function archivos_de :: "string list \<Rightarrow> entries \<Rightarrow> (string \<times> string) list"
  and subcarpetas_de :: "string list \<Rightarrow> entries \<Rightarrow> (string \<times> string) list" where
  "archivos_de dirpath es =
     concat (map (\<lambda>(name, nd).
        case nd of
          File content \<Rightarrow>
            (if name \<noteq> ZIP_NAME then [(relpath (dirpath @ [name]), content)] else [])
        | Dir _ \<Rightarrow> []) es)
     @ subcarpetas_de dirpath es"
| "subcarpetas_de dirpath [] = []"
| "subcarpetas_de dirpath ((name, File _) # es) = subcarpetas_de dirpath es"
| "subcarpetas_de dirpath ((name, Dir sub) # es) =
     archivos_de (dirpath @ [name]) sub @ subcarpetas_de dirpath es"
  by pat_completeness auto
termination
  by (relation "measure (\<lambda>x. case x of
         Inl (_, es) \<Rightarrow> 2 * size_list (size_prod (\<lambda>_. 0) size) es + 1
       | Inr (_, es) \<Rightarrow> 2 * size_list (size_prod (\<lambda>_. 0) size) es)") auto

declare archivos_de.simps [simp del]

text \<open>
  \<open>contiene es p c\<close>: below the directory \<open>es\<close>, the path \<open>p\<close> leads to a regular file of
  content \<open>c\<close>.
\<close>

inductive contiene :: "entries \<Rightarrow> string list \<Rightarrow> string \<Rightarrow> bool" where
  en_carpeta: "(n, File c) \<in> set es \<Longrightarrow> contiene es [n] c"
| en_subcarpeta: "(n, Dir sub) \<in> set es \<Longrightarrow> contiene sub p c \<Longrightarrow> contiene es (n # p) c"

text \<open>
  Opening the archive for writing creates it in the working directory, or empties a
  regular file of its name; then the walk fills it.
\<close>

definition crear_zip :: "entries \<Rightarrow> os_error + (string \<times> string) list" where
  "crear_zip es =
     (case map_of es ZIP_NAME of
        Some (Dir _) \<Rightarrow> Inl IsADirectoryError
      | _ \<Rightarrow> Inr (archivos_de [] (AList.update ZIP_NAME (File []) es)))"

section \<open>Shapes of codes and of path components\<close>

text \<open>
  A code as the matcher returns it: one of the capital letters A, B, G and eight digits.
\<close>

definition is_cif :: "string \<Rightarrow> bool" where
  "is_cif s =
     (case s of
        [] \<Rightarrow> False
      | c # rest \<Rightarrow> c \<in> set ''ABG'' \<and> length rest = 8 \<and> list_all is_digit rest)"

text \<open>
  \<open>intercalado c w\<close>: the text \<open>w\<close> is the code \<open>c\<close> with any number of the characters
  the matcher drops (white space, \<open>.\<close>, \<open>_\<close>, \<open>-\<close>) before, between and after the
  characters of \<open>c\<close>, and nothing else.
\<close>

fun intercalado :: "string \<Rightarrow> string \<Rightarrow> bool" where
  "intercalado [] w = list_all is_separator w"
| "intercalado (x # xs) [] = False"
| "intercalado (x # xs) (y # ys) =
     (if is_separator y then intercalado (x # xs) ys else x = y \<and> intercalado xs ys)"

text \<open>
  A path component that names an entry of the directory it is joined to: it is not empty,
  it is neither \<open>.\<close> nor \<open>..\<close> and it holds no separator. \<open>with_sep\<close> is the prefix
  \<open>os.path.join\<close> puts before such a component.
\<close>

definition safe_component :: "string \<Rightarrow> bool" where
  "safe_component c = (c \<noteq> [] \<and> c \<noteq> ''.'' \<and> c \<noteq> ''..'' \<and> CHR ''/'' \<notin> set c)"

definition with_sep :: "string \<Rightarrow> string" where
  "with_sep path = (if path = [] \<or> last path = CHR ''/'' then path else path @ ''/'')"

section \<open>Names after the cleaning of file names\<close>

text \<open>
  The name an entry of the working directory is meant to have after the cleaning: a
  regular file its name without the white space around it, a directory its own.
  \<open>tras ns e\<close> is the entry \<open>e\<close> once the loop has gone over the names \<open>ns\<close>.
\<close>

definition nombre_final :: "string \<times> node \<Rightarrow> string" where
  "nombre_final e = (case snd e of File _ \<Rightarrow> strip (fst e) | Dir _ \<Rightarrow> fst e)"

definition tras :: "string list \<Rightarrow> string \<times> node \<Rightarrow> string \<times> node" where
  "tras ns e = (if fst e \<in> set ns then nombre_final e else fst e, snd e)"

section \<open>Properties of the classifier\<close>

lemma set_filter_Int: "set (filter (\<lambda>x. x \<in> B) xs) = set xs \<inter> B"
  by (induction xs) simp_all

lemma filter_all_eq_hd:
  assumes "set (filter P xs) = {r}"
  shows "\<exists>rest. filter P xs = r # rest"
proof (cases "filter P xs")
  case Nil
  with assms show ?thesis by simp
next
  case (Cons a as)
  then have "a \<in> set (filter P xs)" by simp
  with assms have "a = r" by simp
  with Cons show ?thesis by simp
qed

lemma find_filter_hd:
  "List.find P xs = Some y \<Longrightarrow> \<exists>rest. filter P xs = y # rest"
  by (induction xs) (simp_all split: if_splits)

lemma find_Some_set: "List.find P xs = Some y \<Longrightarrow> y \<in> set xs \<and> P y"
  by (induction xs) (simp_all split: if_splits)

lemma clasificar_Cons_Cons:
  assumes "filter (\<lambda>cif. cif \<in> set CIFS_LIST) cifs = r # ps"
    and "filter (\<lambda>cif. cif \<noteq> r) cifs = other # rest"
  shows "clasificar filename cifs = ([r, other], MultiplesCifs filename r other)"
  unfolding clasificar_def Let_def assms(1) list.case assms(2) by (rule refl)

lemma clasificar_Cons_Nil:
  assumes "filter (\<lambda>cif. cif \<in> set CIFS_LIST) cifs = r # ps"
    and "filter (\<lambda>cif. cif \<noteq> r) cifs = []"
  shows "clasificar filename cifs = ([r], CifUnico filename r)"
  unfolding clasificar_def Let_def assms(1) list.case assms(2) by (rule refl)

lemma clasificar_Nil:
  assumes "filter (\<lambda>cif. cif \<in> set CIFS_LIST) cifs = []"
  shows "clasificar filename cifs = ([UNIDENTIFIED_FOLDER_NAME], SinCif filename)"
  unfolding clasificar_def Let_def assms(1) list.case by (rule refl)

text \<open>
  Claim C1. When exactly one of the codes found is in \<open>CIFS_LIST\<close> and the codes found
  hold another one, the destination is \<open><recognized>/<other>\<close>: the recognized code is
  the primary one and the first of the remaining codes found is the secondary one, which
  is a folder although it is not in \<open>CIFS_LIST\<close>.
\<close>

theorem clasificar_recognized_with_other:
  assumes one: "set cifs \<inter> set CIFS_LIST = {r}"
    and other: "List.find (\<lambda>cif. cif \<noteq> r) cifs = Some other"
  shows "clasificar filename cifs = ([r, other], MultiplesCifs filename r other)
         \<and> destination_folder base_dir filename cifs = os_path_join base_dir [r, other]
         \<and> other \<notin> set CIFS_LIST"
proof -
  have "set (filter (\<lambda>cif. cif \<in> set CIFS_LIST) cifs) = {r}"
    using one by (simp only: set_filter_Int)
  from filter_all_eq_hd [OF this]
  obtain ps where ps: "filter (\<lambda>cif. cif \<in> set CIFS_LIST) cifs = r # ps" ..
  from find_filter_hd [OF other]
  obtain rest where rest: "filter (\<lambda>cif. cif \<noteq> r) cifs = other # rest" ..
  have c: "clasificar filename cifs = ([r, other], MultiplesCifs filename r other)"
    by (rule clasificar_Cons_Cons [OF ps rest])
  have d: "destination_folder base_dir filename cifs = os_path_join base_dir [r, other]"
    by (simp only: destination_folder_def c fst_conv)
  have mem: "other \<in> set cifs" and neq: "other \<noteq> r"
    using find_Some_set [OF other] by simp_all
  have "other \<notin> set CIFS_LIST"
  proof
    assume "other \<in> set CIFS_LIST"
    with mem have "other \<in> set cifs \<inter> set CIFS_LIST" by simp
    with one have "other \<in> {r}" by simp
    with neq show False by simp
  qed
  with c d show ?thesis by simp
qed

text \<open>
  Claim C6. When the codes found are one code of \<open>CIFS_LIST\<close> and nothing else, the
  destination is the folder of that code alone.
\<close>

theorem clasificar_single:
  assumes "set cifs \<inter> set CIFS_LIST = {r}" and "set cifs = {r}"
  shows "clasificar filename cifs = ([r], CifUnico filename r)
         \<and> destination_folder base_dir filename cifs = os_path_join base_dir [r]"
proof -
  have "set (filter (\<lambda>cif. cif \<in> set CIFS_LIST) cifs) = {r}"
    using assms(1) by (simp only: set_filter_Int)
  from filter_all_eq_hd [OF this]
  obtain ps where ps: "filter (\<lambda>cif. cif \<in> set CIFS_LIST) cifs = r # ps" ..
  have "\<forall>x \<in> set cifs. \<not> x \<noteq> r"
    by (simp add: assms(2))
  then have f2: "filter (\<lambda>cif. cif \<noteq> r) cifs = []"
    by (simp only: filter_False)
  have c: "clasificar filename cifs = ([r], CifUnico filename r)"
    by (rule clasificar_Cons_Nil [OF ps f2])
  have d: "destination_folder base_dir filename cifs = os_path_join base_dir [r]"
    by (simp only: destination_folder_def c fst_conv)
  from c d show ?thesis by simp
qed


text \<open>
  Claim C5. When none of the codes found is in \<open>CIFS_LIST\<close>, however many were found,
  the destination is the unidentified folder.
\<close>

theorem clasificar_no_recognized:
  assumes "set cifs \<inter> set CIFS_LIST = {}"
  shows "clasificar filename cifs = ([UNIDENTIFIED_FOLDER_NAME], SinCif filename)
         \<and> destination_folder base_dir filename cifs
             = os_path_join base_dir [UNIDENTIFIED_FOLDER_NAME]"
proof -
  have "set (filter (\<lambda>cif. cif \<in> set CIFS_LIST) cifs) = {}"
    using assms by (simp only: set_filter_Int)
  then have "filter (\<lambda>cif. cif \<in> set CIFS_LIST) cifs = []"
    by (simp only: set_empty)
  then have c: "clasificar filename cifs = ([UNIDENTIFIED_FOLDER_NAME], SinCif filename)"
    by (rule clasificar_Nil)
  have d: "destination_folder base_dir filename cifs
             = os_path_join base_dir [UNIDENTIFIED_FOLDER_NAME]"
    by (simp only: destination_folder_def c fst_conv)
  from c d show ?thesis by simp
qed

text \<open>
  A recognized code found after a code that is not recognized.
\<close>

theorem clasificar_recognized_with_other_witness:
  "clasificar ''multi.pdf'' [''B12345678'', ''A80652928'']
     = ([''A80652928'', ''B12345678''], MultiplesCifs ''multi.pdf'' ''A80652928'' ''B12345678'')
   \<and> destination_folder ''/tmp/x'' ''multi.pdf'' [''B12345678'', ''A80652928'']
     = ''/tmp/x/A80652928/B12345678''
   \<and> ''B12345678'' \<notin> set CIFS_LIST"
proof -
  have a: "set [''B12345678'', ''A80652928''] \<inter> set CIFS_LIST = {''A80652928''}"
    by (simp add: CIFS_LIST_def)
  have b: "List.find (\<lambda>cif. cif \<noteq> ''A80652928'') [''B12345678'', ''A80652928''] = Some ''B12345678''"
    by simp
  have j: "os_path_join ''/tmp/x'' [''A80652928'', ''B12345678''] = ''/tmp/x/A80652928/B12345678''"
    by (simp add: os_path_join_def join2_def)
  note th = clasificar_recognized_with_other [OF a b, of "''multi.pdf''" "''/tmp/x''"]
  show ?thesis by (rule th [unfolded j])
qed

text \<open>
  Three codes found, none of them recognized.
\<close>

theorem clasificar_no_recognized_witness:
  "clasificar ''x.pdf'' [''B12345678'', ''B00000000'', ''G12345678'']
     = ([UNIDENTIFIED_FOLDER_NAME], SinCif ''x.pdf'')
   \<and> destination_folder ''/tmp/x'' ''x.pdf'' [''B12345678'', ''B00000000'', ''G12345678'']
     = ''/tmp/x/Sin identificar''"
proof -
  have a: "set [''B12345678'', ''B00000000'', ''G12345678''] \<inter> set CIFS_LIST = {}"
    by (simp add: CIFS_LIST_def)
  have j: "os_path_join ''/tmp/x'' [UNIDENTIFIED_FOLDER_NAME] = ''/tmp/x/Sin identificar''"
    by (simp add: os_path_join_def join2_def UNIDENTIFIED_FOLDER_NAME_def)
  note th = clasificar_no_recognized [OF a, of "''x.pdf''" "''/tmp/x''"]
  show ?thesis by (rule th [unfolded j])
qed

text \<open>
  One recognized code found.
\<close>

theorem clasificar_single_witness:
  "clasificar ''invoice1.pdf'' [''B85536134'']
     = ([''B85536134''], CifUnico ''invoice1.pdf'' ''B85536134'')
   \<and> destination_folder ''/tmp/x'' ''invoice1.pdf'' [''B85536134''] = ''/tmp/x/B85536134''"
proof -
  have a: "set [''B85536134''] \<inter> set CIFS_LIST = {''B85536134''}"
    by (simp add: CIFS_LIST_def)
  have b: "set [''B85536134''] = {''B85536134''}" by simp
  have j: "os_path_join ''/tmp/x'' [''B85536134''] = ''/tmp/x/B85536134''"
    by (simp add: os_path_join_def join2_def)
  note th = clasificar_single [OF a b, of "''invoice1.pdf''" "''/tmp/x''"]
  show ?thesis by (rule th [unfolded j])
qed

section \<open>Properties of the matcher\<close>

lemma texto_paginas_raises:
  "PageRaises \<in> set ps \<Longrightarrow> texto_paginas ps acc = Inl PdfException"
  by (induction ps acc rule: texto_paginas.induct) simp_all

lemma set_order_remdups: "set_order remdups"
  by (simp add: set_order_def)

text \<open>
  Claim C4. A file that cannot be opened, or one of whose pages cannot be read, makes
  \<open>buscar_cif_en_pdf\<close> return the empty list: the function has no other outcome than a
  list, so nothing is raised, and the document is classified to the unidentified folder.
\<close>

theorem buscar_unreadable:
  assumes "doc = OpenRaises \<or> (\<exists>ps. doc = Opened ps \<and> PageRaises \<in> set ps)"
  shows "buscar_cif_en_pdf orden doc = []
         \<and> clasificar filename (buscar_cif_en_pdf orden doc)
             = ([UNIDENTIFIED_FOLDER_NAME], SinCif filename)"
proof -
  have e: "extraer_texto doc = Inl PdfException"
    using assms by (auto simp: extraer_texto_def texto_paginas_raises)
  then have b: "buscar_cif_en_pdf orden doc = []"
    by (simp add: buscar_cif_en_pdf_def)
  have "clasificar filename [] = ([UNIDENTIFIED_FOLDER_NAME], SinCif filename)"
    by (simp add: clasificar_def)
  with b show ?thesis by simp
qed

text \<open>
  A document whose second page cannot be read, although its first page holds a code.
\<close>

theorem buscar_unreadable_witness:
  "buscar_cif_en_pdf remdups (Opened [PageText (Some ''B85536134''), PageRaises]) = []
   \<and> clasificar ''bad.pdf''
        (buscar_cif_en_pdf remdups (Opened [PageText (Some ''B85536134''), PageRaises]))
      = ([UNIDENTIFIED_FOLDER_NAME], SinCif ''bad.pdf'')"
proof -
  have a: "Opened [PageText (Some ''B85536134''), PageRaises] = OpenRaises
     \<or> (\<exists>ps. Opened [PageText (Some ''B85536134''), PageRaises] = Opened ps \<and> PageRaises \<in> set ps)"
    by simp
  show ?thesis by (rule buscar_unreadable [OF a])
qed

lemma letter_not_digit: "is_cif_letter c \<Longrightarrow> \<not> is_digit c"
  by (auto simp: is_cif_letter_def is_digit_def)

lemma match_cif_at_code:
  assumes "is_cif_letter l" "length ds = 8" "list_all is_digit ds"
  shows "match_cif_at ((l # ds) @ ys)"
  using assms by (simp add: match_cif_at_def)

lemma findall_cif_contains:
  assumes l: "is_cif_letter l" and n: "length ds = 8" and d: "list_all is_digit ds"
  shows "l # ds \<in> set (findall_cif (xs @ (l # ds) @ ys))"
proof (induction "length xs" arbitrary: xs rule: less_induct)
  case less
  show ?case
  proof (cases xs)
    case Nil
    have m: "match_cif_at ((l # ds) @ ys)" by (rule match_cif_at_code [OF l n d])
    have "take 9 ((l # ds) @ ys) = l # ds" using n by simp
    then show ?thesis
      using m Nil by (subst findall_cif.simps) simp
  next
    case (Cons x xs')
    let ?s = "xs @ (l # ds) @ ys"
    have ne: "?s \<noteq> []" by simp
    show ?thesis
    proof (cases "match_cif_at ?s")
      case False
      have "l # ds \<in> set (findall_cif (xs' @ (l # ds) @ ys))"
        using less [of xs'] Cons by simp
      then show ?thesis
        using False Cons by (subst findall_cif.simps) simp
    next
      case True
      have dig: "list_all is_digit (take 8 (xs' @ (l # ds) @ ys))"
        using True Cons by (simp add: match_cif_at_def)
      have len: "8 \<le> length xs'"
      proof (rule ccontr)
        assume "\<not> 8 \<le> length xs'"
        then have lt: "length xs' < 8" by simp
        have "(xs' @ (l # ds) @ ys) ! length xs' = l"
          by (simp add: nth_append)
        moreover have "(take 8 (xs' @ (l # ds) @ ys)) ! length xs' = (xs' @ (l # ds) @ ys) ! length xs'"
          by (rule nth_take [OF lt])
        moreover have "length xs' < length (take 8 (xs' @ (l # ds) @ ys))"
          using lt n by simp
        ultimately have "l \<in> set (take 8 (xs' @ (l # ds) @ ys))"
          by (metis nth_mem)
        with dig have "is_digit l" by (simp add: list_all_iff)
        with l show False by (simp add: letter_not_digit)
      qed
      then have dr: "drop 9 ?s = drop 9 xs @ (l # ds) @ ys"
        using Cons by simp
      have "length (drop 9 xs) < length xs" using Cons by simp
      then have "l # ds \<in> set (findall_cif (drop 9 xs @ (l # ds) @ ys))"
        by (rule less)
      then show ?thesis
        using True ne dr by (subst findall_cif.simps) simp
    qed
  qed
qed


lemma limpiar_texto_append:
  "limpiar_texto (a @ b) = limpiar_texto a @ limpiar_texto b"
  by (simp add: limpiar_texto_def)

lemma upper_char_letter:
  assumes "is_cif_letter c"
  shows "upper_char c \<in> set ''ABG''"
proof -
  from assms have "c = CHR ''A'' \<or> c = CHR ''B'' \<or> c = CHR ''G''
      \<or> c = CHR ''a'' \<or> c = CHR ''b'' \<or> c = CHR ''g''"
    by (simp add: is_cif_letter_def)
  then show ?thesis
    by (elim disjE; hypsubst; simp add: upper_char_def)
qed

lemma upper_char_digit:
  assumes "is_digit c"
  shows "upper_char c = c"
proof -
  from assms have "c = CHR ''0'' \<or> c = CHR ''1'' \<or> c = CHR ''2'' \<or> c = CHR ''3''
      \<or> c = CHR ''4'' \<or> c = CHR ''5'' \<or> c = CHR ''6'' \<or> c = CHR ''7''
      \<or> c = CHR ''8'' \<or> c = CHR ''9''"
    by (simp add: is_digit_def)
  then show ?thesis
    by (elim disjE; hypsubst; simp add: upper_char_def)
qed

lemma digit_not_slash: "is_digit c \<Longrightarrow> c \<noteq> CHR ''/''"
  by (auto simp: is_digit_def)


lemma upper_digits: "list_all is_digit ds \<Longrightarrow> map upper_char ds = ds"
  by (induction ds) (simp_all add: upper_char_digit)

lemma is_cif_upper:
  assumes "is_cif_letter l" "length ds = 8" "list_all is_digit ds"
  shows "is_cif (upper (l # ds))"
  using assms upper_char_letter [OF assms(1)]
  by (simp add: is_cif_def upper_def upper_digits)

lemma limpiar_texto_intercalado:
  "intercalado c w \<Longrightarrow> limpiar_texto w = c"
proof (induction c w rule: intercalado.induct)
  case (1 w)
  then show ?case
    by (induction w) (simp_all add: limpiar_texto_def)
next
  case (2 x xs)
  then show ?case by simp
next
  case (3 x xs y ys)
  show ?case
  proof (cases "is_separator y")
    case True
    with 3 show ?thesis by (simp add: limpiar_texto_def)
  next
    case False
    with 3 show ?thesis by (simp add: limpiar_texto_def)
  qed
qed

text \<open>
  Claim C3. When the text of the document holds a stretch \<open>w\<close> that is a code (a
  letter of A, B, G in either case, then eight digits) with white space and the characters
  \<open>.\<close>, \<open>_\<close>, \<open>-\<close> anywhere between, before or after its characters, the codes found
  hold that code in capitals.
\<close>

theorem buscar_finds_code:
  assumes orden: "set_order orden"
    and l: "is_cif_letter l" and n: "length ds = 8" and d: "list_all is_digit ds"
    and w: "intercalado (l # ds) w"
    and t: "extraer_texto doc = Inr (pre @ w @ suf)"
  shows "upper (l # ds) \<in> set (buscar_cif_en_pdf orden doc) \<and> is_cif (upper (l # ds))"
proof -
  have c: "limpiar_texto w = l # ds" by (rule limpiar_texto_intercalado [OF w])
  have "limpiar_texto (pre @ w @ suf) = limpiar_texto pre @ (l # ds) @ limpiar_texto suf"
    by (simp only: limpiar_texto_append c)
  then have "l # ds \<in> set (findall_cif (limpiar_texto (pre @ w @ suf)))"
    using findall_cif_contains [OF l n d] by simp
  then have "upper (l # ds) \<in> set (map upper (findall_cif (limpiar_texto (pre @ w @ suf))))"
    by (simp only: set_map) (rule imageI)
  moreover have "set (orden (map upper (findall_cif (limpiar_texto (pre @ w @ suf)))))
                 = set (map upper (findall_cif (limpiar_texto (pre @ w @ suf))))"
    using orden by (simp only: set_order_def)
  ultimately have "upper (l # ds) \<in> set (buscar_cif_en_pdf orden doc)"
    by (simp add: buscar_cif_en_pdf_def t)
  with is_cif_upper [OF l n d] show ?thesis by simp
qed

text \<open>
  A code in lower case, spread over blanks, a hyphen and a dot, on the first of three pages.
\<close>

theorem buscar_finds_code_witness:
  "''B85536134'' \<in> set (buscar_cif_en_pdf remdups
        (Opened [PageText (Some ''Factura CIF: b 8553-61.34''), PageText None,
                 PageText (Some '' total 10'')]))
   \<and> is_cif ''B85536134''"
proof -
  have l: "is_cif_letter CHR ''b''" by (simp add: is_cif_letter_def)
  have n: "length ''85536134'' = 8" by simp
  have d: "list_all is_digit ''85536134''" by (simp add: is_digit_def)
  have w: "intercalado (CHR ''b'' # ''85536134'') ''b 8553-61.34''"
    by code_simp
  have t: "extraer_texto (Opened [PageText (Some ''Factura CIF: b 8553-61.34''), PageText None,
                 PageText (Some '' total 10'')])
           = Inr (''Factura CIF: '' @ ''b 8553-61.34'' @ '' total 10'')"
    by (simp add: extraer_texto_def)
  have u: "upper (CHR ''b'' # ''85536134'') = ''B85536134''"
    by (simp add: upper_def upper_char_def)
  show ?thesis
    by (rule buscar_finds_code [OF set_order_remdups l n d w t, unfolded u])
qed


lemma findall_cif_matches:
  "m \<in> set (findall_cif s) \<Longrightarrow>
     \<exists>l ds. m = l # ds \<and> is_cif_letter l \<and> length ds = 8 \<and> list_all is_digit ds"
proof (induction s rule: findall_cif.induct)
  case (1 s)
  show ?case
  proof (cases "s = []")
    case True
    with "1.prems" show ?thesis by (simp add: findall_cif.simps)
  next
    case ne: False
    show ?thesis
    proof (cases "match_cif_at s")
      case True
      from "1.prems" ne True
      have "m = take 9 s \<or> m \<in> set (findall_cif (drop 9 s))"
        by (subst (asm) findall_cif.simps) simp
      then show ?thesis
      proof
        assume m: "m = take 9 s"
        obtain c rest where s: "s = c # rest" using ne by (cases s) auto
        with True have "is_cif_letter c" "8 \<le> length rest" "list_all is_digit (take 8 rest)"
          by (simp_all add: match_cif_at_def)
        then show ?thesis using m s by simp
      next
        assume "m \<in> set (findall_cif (drop 9 s))"
        then show ?thesis by (rule "1.IH"(1) [OF ne True])
      qed
    next
      case False
      from "1.prems" ne False have "m \<in> set (findall_cif (tl s))"
        by (subst (asm) findall_cif.simps) simp
      then show ?thesis by (rule "1.IH"(2) [OF ne False])
    qed
  qed
qed

lemma buscar_all_cif:
  assumes "set_order orden" and "c \<in> set (buscar_cif_en_pdf orden doc)"
  shows "is_cif c"
proof (cases "extraer_texto doc")
  case (Inl e)
  with assms(2) show ?thesis by (simp add: buscar_cif_en_pdf_def)
next
  case (Inr texto)
  have "set (orden (map upper (findall_cif (limpiar_texto texto))))
        = set (map upper (findall_cif (limpiar_texto texto)))"
    using assms(1) by (simp only: set_order_def)
  with assms(2) Inr have "c \<in> upper ` set (findall_cif (limpiar_texto texto))"
    by (simp add: buscar_cif_en_pdf_def)
  then obtain m where m: "m \<in> set (findall_cif (limpiar_texto texto))" and c: "c = upper m"
    by (elim imageE)
  from findall_cif_matches [OF m] obtain l ds
    where "m = l # ds" "is_cif_letter l" "length ds = 8" "list_all is_digit ds"
    by (elim exE conjE)
  with c show ?thesis by (simp only: is_cif_upper)
qed

lemma filter_Cons_mem: "filter P xs = y # ys \<Longrightarrow> y \<in> set xs"
proof -
  assume "filter P xs = y # ys"
  then have "y \<in> set (filter P xs)" by simp
  then show ?thesis by simp
qed

lemma clasificar_components:
  assumes "c \<in> set (fst (clasificar filename cifs))"
  shows "c \<in> set cifs \<or> c = UNIDENTIFIED_FOLDER_NAME"
proof (cases "filter (\<lambda>cif. cif \<in> set CIFS_LIST) cifs")
  case Nil
  with assms show ?thesis by (simp add: clasificar_def)
next
  case (Cons p ps)
  have p: "p \<in> set cifs" by (rule filter_Cons_mem [OF Cons])
  show ?thesis
  proof (cases "filter (\<lambda>cif. cif \<noteq> p) cifs")
    case Nil
    with assms Cons p show ?thesis by (simp add: clasificar_def)
  next
    case (Cons s ss)
    have s: "s \<in> set cifs" by (rule filter_Cons_mem [OF Cons])
    from assms \<open>filter (\<lambda>cif. cif \<in> set CIFS_LIST) cifs = p # ps\<close> Cons
    have "c = p \<or> c = s" by (simp add: clasificar_def)
    with p s show ?thesis by (elim disjE) simp_all
  qed
qed

lemma clasificar_nonempty: "fst (clasificar filename cifs) \<noteq> []"
  by (simp add: clasificar_def Let_def split: list.split)

lemma is_cif_safe:
  assumes "is_cif c"
  shows "safe_component c"
proof -
  from assms obtain l ds where c: "c = l # ds" and l: "l \<in> set ''ABG''"
    and n: "length ds = 8" and d: "list_all is_digit ds"
    by (cases c) (simp_all add: is_cif_def)
  have "l \<noteq> CHR ''/''" using l by (elim disjE | simp)+
  moreover have "CHR ''/'' \<notin> set ds"
    using d digit_not_slash by (simp only: list_all_iff) blast
  moreover have "length c = 9" using c n by simp
  ultimately show ?thesis
    using c by (auto simp: safe_component_def)
qed

lemma unidentified_safe: "safe_component UNIDENTIFIED_FOLDER_NAME"
  by (simp add: safe_component_def UNIDENTIFIED_FOLDER_NAME_def)

lemma join2_safe:
  assumes "safe_component c"
  shows "join2 path c = with_sep path @ c"
proof -
  from assms have "c \<noteq> []" and "CHR ''/'' \<notin> set c"
    by (simp_all add: safe_component_def)
  then have "hd c \<noteq> CHR ''/''" by (cases c) auto
  then show ?thesis by (simp add: join2_def with_sep_def)
qed

lemma with_sep_safe:
  assumes "safe_component c"
  shows "with_sep (p @ c) = p @ c @ ''/''"
proof -
  from assms have ne: "c \<noteq> []" and ns: "CHR ''/'' \<notin> set c"
    by (simp_all add: safe_component_def)
  have "last c \<in> set c" using ne by simp
  with ns have "last c \<noteq> CHR ''/''" by metis
  with ne show ?thesis by (simp add: with_sep_def)
qed

lemma os_path_join_safe:
  "comps \<noteq> [] \<Longrightarrow> list_all safe_component comps \<Longrightarrow>
     os_path_join path comps = with_sep path @ relpath comps"
proof (induction comps arbitrary: path)
  case Nil
  then show ?case by simp
next
  case (Cons c cs)
  then have c: "safe_component c" and cs: "list_all safe_component cs" by simp_all
  show ?case
  proof (cases cs)
    case Nil
    then show ?thesis by (simp add: os_path_join_def join2_safe [OF c])
  next
    case (Cons c' cs')
    have "os_path_join path (c # cs) = os_path_join (join2 path c) cs"
      by (simp add: os_path_join_def)
    also have "\<dots> = with_sep (join2 path c) @ relpath cs"
      using Cons.IH [of "join2 path c"] cs Cons by simp
    also have "\<dots> = with_sep path @ c @ ''/'' @ relpath cs"
      by (simp add: join2_safe [OF c] with_sep_safe [OF c])
    finally show ?thesis using Cons by simp
  qed
qed

text \<open>
  Claim C10. Whatever the document holds, the destination has at least one component
  below \<open>base_dir\<close>; every component is a code (a capital letter of A, B, G and eight
  digits) or the name of the unidentified folder, so it holds no separator and is neither
  empty, \<open>.\<close> nor \<open>..\<close>; and the destination is \<open>base_dir\<close>, a separator and these
  components. A file moved there under a name of the listing of \<open>base_dir\<close> (a plain
  name) gets the path made of \<open>base_dir\<close>, these components and that name.
\<close>

theorem destination_inside_base_dir:
  assumes "set_order orden" and "safe_component file_to_move"
  shows "fst (clasificar filename (buscar_cif_en_pdf orden doc)) \<noteq> []
    \<and> list_all (\<lambda>c. (is_cif c \<or> c = UNIDENTIFIED_FOLDER_NAME) \<and> safe_component c)
         (fst (clasificar filename (buscar_cif_en_pdf orden doc)))
    \<and> destination_folder base_dir filename (buscar_cif_en_pdf orden doc)
        = with_sep base_dir @ relpath (fst (clasificar filename (buscar_cif_en_pdf orden doc)))
    \<and> os_path_join (destination_folder base_dir filename (buscar_cif_en_pdf orden doc))
         [file_to_move]
        = with_sep base_dir
          @ relpath (fst (clasificar filename (buscar_cif_en_pdf orden doc)) @ [file_to_move])"
proof -
  let ?comps = "fst (clasificar filename (buscar_cif_en_pdf orden doc))"
  have ne: "?comps \<noteq> []" by (rule clasificar_nonempty)
  have each: "(is_cif c \<or> c = UNIDENTIFIED_FOLDER_NAME) \<and> safe_component c"
    if "c \<in> set ?comps" for c
  proof -
    from clasificar_components [OF that]
    have "is_cif c \<or> c = UNIDENTIFIED_FOLDER_NAME"
      using buscar_all_cif [OF assms(1)] by (elim disjE) simp_all
    moreover from this have "safe_component c"
      using is_cif_safe unidentified_safe by (elim disjE) simp_all
    ultimately show ?thesis by simp
  qed
  then have all: "list_all (\<lambda>c. (is_cif c \<or> c = UNIDENTIFIED_FOLDER_NAME) \<and> safe_component c) ?comps"
    by (simp only: list_all_iff) simp
  have safe: "list_all safe_component ?comps"
    using each by (simp only: list_all_iff) simp
  from os_path_join_safe [OF ne safe]
  have dest: "destination_folder base_dir filename (buscar_cif_en_pdf orden doc)
        = with_sep base_dir @ relpath ?comps"
    by (simp only: destination_folder_def)
  have "os_path_join (destination_folder base_dir filename (buscar_cif_en_pdf orden doc))
          [file_to_move]
        = os_path_join base_dir (?comps @ [file_to_move])"
    by (simp add: destination_folder_def os_path_join_def)
  also have "\<dots> = with_sep base_dir @ relpath (?comps @ [file_to_move])"
  proof (rule os_path_join_safe)
    show "?comps @ [file_to_move] \<noteq> []" by simp
    show "list_all safe_component (?comps @ [file_to_move])"
      using safe assms(2) by simp
  qed
  finally have moved: "os_path_join (destination_folder base_dir filename (buscar_cif_en_pdf orden doc))
          [file_to_move]
        = with_sep base_dir @ relpath (?comps @ [file_to_move])" .
  from ne all dest moved show ?thesis by simp
qed

lemma buscar_example: "buscar_cif_en_pdf remdups (Opened [PageText (Some ''Emisor A80652928, receptor b-1234 5678'')])
   = [''A80652928'', ''B12345678'']"
  by code_simp

lemma clasificar_example: "clasificar ''multi.pdf'' [''A80652928'', ''B12345678'']
   = ([''A80652928'', ''B12345678''], MultiplesCifs ''multi.pdf'' ''A80652928'' ''B12345678'')"
  by code_simp

lemma with_sep_example: "with_sep ''/tmp/tmpk3'' @ relpath [''A80652928'', ''B12345678''] = ''/tmp/tmpk3/A80652928/B12345678''"
  by code_simp

text \<open>
  A document with a recognized code and another one.
\<close>

theorem destination_inside_base_dir_witness:
  "list_all (\<lambda>c. (is_cif c \<or> c = UNIDENTIFIED_FOLDER_NAME) \<and> safe_component c)
      [''A80652928'', ''B12345678'']
   \<and> destination_folder ''/tmp/tmpk3'' ''multi.pdf''
        (buscar_cif_en_pdf remdups (Opened [PageText (Some ''Emisor A80652928, receptor b-1234 5678'')]))
      = ''/tmp/tmpk3/A80652928/B12345678''
   \<and> os_path_join ''/tmp/tmpk3/A80652928/B12345678'' [''multi.xlsx'']
      = ''/tmp/tmpk3/A80652928/B12345678/multi.xlsx''"
proof -
  have s: "safe_component ''multi.xlsx''" by code_simp
  note th = destination_inside_base_dir [OF set_order_remdups s,
      of "''multi.pdf''" "Opened [PageText (Some ''Emisor A80652928, receptor b-1234 5678'')]" "''/tmp/tmpk3''"]
  have a: "fst (clasificar ''multi.pdf''
        (buscar_cif_en_pdf remdups (Opened [PageText (Some ''Emisor A80652928, receptor b-1234 5678'')])))
       = [''A80652928'', ''B12345678'']"
    by (simp only: buscar_example clasificar_example fst_conv)
  have b: "with_sep ''/tmp/tmpk3'' @ relpath ([''A80652928'', ''B12345678''] @ [''multi.xlsx''])
       = ''/tmp/tmpk3/A80652928/B12345678/multi.xlsx''"
    by code_simp
  note th' = th [unfolded a b with_sep_example]
  from th' have 1: "list_all (\<lambda>c. (is_cif c \<or> c = UNIDENTIFIED_FOLDER_NAME) \<and> safe_component c)
      [''A80652928'', ''B12345678'']" by (elim conjE)
  from th' have 2: "destination_folder ''/tmp/tmpk3'' ''multi.pdf''
        (buscar_cif_en_pdf remdups (Opened [PageText (Some ''Emisor A80652928, receptor b-1234 5678'')]))
      = ''/tmp/tmpk3/A80652928/B12345678''" by (elim conjE)
  from th' have 3: "os_path_join (destination_folder ''/tmp/tmpk3'' ''multi.pdf''
        (buscar_cif_en_pdf remdups (Opened [PageText (Some ''Emisor A80652928, receptor b-1234 5678'')])))
        [''multi.xlsx'']
      = ''/tmp/tmpk3/A80652928/B12345678/multi.xlsx''" by (elim conjE)
  from 1 2 3 [unfolded 2] show ?thesis by (intro conjI)
qed

section \<open>Properties of the removal of empty folders\<close>

lemma os_rmdir_empty: "os_rmdir (Dir []) = Inr ()"
  by (simp add: os_rmdir_def)

lemma limpiar_vacias_total: "\<exists>es' lg. limpiar_vacias es = Inr (es', lg)"
proof (induction es rule: limpiar_vacias.induct)
  case 1
  show ?case by simp
next
  case (2 name content es)
  then obtain es' lg where "limpiar_vacias es = Inr (es', lg)" by (elim exE)
  then show ?case by simp
next
  case (3 name sub es)
  from "3.IH"(1) obtain sub' lg1 where sub: "limpiar_vacias sub = Inr (sub', lg1)"
    by (elim exE)
  show ?case
  proof (cases "sub' = []")
    case True
    from "3.IH"(2) [OF sub refl True os_rmdir_empty [folded True]]
    obtain es' lg2 where "limpiar_vacias es = Inr (es', lg2)" by (elim exE)
    with sub True show ?thesis by (simp add: os_rmdir_empty)
  next
    case False
    from "3.IH"(3) [OF sub refl False]
    obtain es' lg2 where "limpiar_vacias es = Inr (es', lg2)" by (elim exE)
    with sub False show ?thesis by simp
  qed
qed

lemma limpiar_vacias_fixed:
  "limpiar_vacias es = Inr (es', lg) \<Longrightarrow> limpiar_vacias es' = Inr (es', [])"
proof (induction es arbitrary: es' lg rule: limpiar_vacias.induct)
  case 1
  then show ?case by simp
next
  case (2 name content es)
  from limpiar_vacias_total [of es] obtain es1 lg1
    where es: "limpiar_vacias es = Inr (es1, lg1)" by (elim exE)
  with "2.prems" have e: "es' = (name, File content) # es1" by simp
  from "2.IH" [OF es] show ?case by (simp add: e)
next
  case (3 name sub es)
  from limpiar_vacias_total [of sub] obtain sub' lg1
    where sub: "limpiar_vacias sub = Inr (sub', lg1)" by (elim exE)
  from limpiar_vacias_total [of es] obtain es1 lg2
    where es: "limpiar_vacias es = Inr (es1, lg2)" by (elim exE)
  show ?case
  proof (cases "sub' = []")
    case True
    with "3.prems" sub es have e: "es' = es1" by (simp add: os_rmdir_empty)
    from "3.IH"(2) [OF sub refl True os_rmdir_empty [folded True] es]
    show ?thesis by (simp add: e)
  next
    case False
    with "3.prems" sub es have e: "es' = (name, Dir sub') # es1" by simp
    have a: "limpiar_vacias sub' = Inr (sub', [])" by (rule "3.IH"(1) [OF sub])
    have b: "limpiar_vacias es1 = Inr (es1, [])"
      by (rule "3.IH"(3) [OF sub refl False es])
    show ?thesis by (simp add: e a b False)
  qed
qed

text \<open>
  Claim C8. Removing the empty folders never raises, and removing them again from the
  tree it leaves raises nothing either, removes nothing (its log is empty) and leaves the
  same tree.
\<close>

theorem limpiar_vacias_idempotent:
  "\<exists>es1 lg1. limpiar_vacias es = Inr (es1, lg1) \<and> limpiar_vacias es1 = Inr (es1, [])"
proof -
  from limpiar_vacias_total [of es] obtain es1 lg1
    where a: "limpiar_vacias es = Inr (es1, lg1)" by (elim exE)
  from limpiar_vacias_fixed [OF a] a show ?thesis by simp
qed

lemma limpiar_vacias_example:
  "limpiar_vacias
     [(''A80652928'', Dir [(''B12345678'', Dir [])]),
      (''B85536134'', Dir [(''invoice1.pdf'', File ''B85536134'')]),
      (''notes.txt'', File ''n'')]
   = Inr ([(''B85536134'', Dir [(''invoice1.pdf'', File ''B85536134'')]),
           (''notes.txt'', File ''n'')],
          [CarpetaEliminada ''B12345678'', CarpetaEliminada ''A80652928''])"
  by code_simp

text \<open>A folder that holds only an empty folder goes, deepest first; the second run is idle.\<close>

theorem limpiar_vacias_idempotent_witness:
  "limpiar_vacias
     [(''B85536134'', Dir [(''invoice1.pdf'', File ''B85536134'')]),
      (''notes.txt'', File ''n'')]
   = Inr ([(''B85536134'', Dir [(''invoice1.pdf'', File ''B85536134'')]),
           (''notes.txt'', File ''n'')], [])"
proof -
  from limpiar_vacias_idempotent
    [of "[(''A80652928'', Dir [(''B12345678'', Dir [])]),
          (''B85536134'', Dir [(''invoice1.pdf'', File ''B85536134'')]),
          (''notes.txt'', File ''n'')]"]
  obtain es1 lg1 where
    a: "limpiar_vacias
          [(''A80652928'', Dir [(''B12345678'', Dir [])]),
           (''B85536134'', Dir [(''invoice1.pdf'', File ''B85536134'')]),
           (''notes.txt'', File ''n'')] = Inr (es1, lg1)"
    and b: "limpiar_vacias es1 = Inr (es1, [])"
    by (elim exE conjE)
  from a have "es1 = [(''B85536134'', Dir [(''invoice1.pdf'', File ''B85536134'')]),
           (''notes.txt'', File ''n'')]"
    by (simp only: limpiar_vacias_example sum.inject prod.inject)
  with b show ?thesis by (simp only:)
qed

section \<open>Properties of the cleaning of file names\<close>

lemma dropWhile_id: "xs = [] \<or> \<not> P (hd xs) \<Longrightarrow> dropWhile P xs = xs"
  by (cases xs) auto

lemma hd_dropWhile_not: "dropWhile P xs \<noteq> [] \<Longrightarrow> \<not> P (hd (dropWhile P xs))"
  by (rule hd_dropWhile)

lemma strip_idem: "strip (strip s) = strip s"
proof -
  define a where "a = dropWhile is_space s"
  define b where "b = dropWhile is_space (rev a)"
  have b_tail: "b = [] \<or> \<not> is_space (hd b)"
    unfolding b_def using hd_dropWhile [of is_space "rev a"] by blast
  have a_head: "a = [] \<or> \<not> is_space (hd a)"
    unfolding a_def using hd_dropWhile [of is_space s] by blast
  have "suffix b (rev a)" unfolding b_def by (rule suffix_dropWhile)
  then obtain p where p: "rev a = p @ b" by (auto simp: suffix_def)
  then have ra: "a = rev b @ rev p" by (metis rev_append rev_rev_ident)
  have head: "rev b = [] \<or> \<not> is_space (hd (rev b))"
  proof (cases "b = []")
    case True
    then show ?thesis by simp
  next
    case False
    then have "hd (rev b) = hd a" using ra by (metis hd_append2 rev_is_Nil_conv)
    moreover have "a \<noteq> []" using False ra by simp
    ultimately show ?thesis using a_head by simp
  qed
  have 1: "dropWhile is_space (rev b) = rev b"
    by (rule dropWhile_id [of "rev b" is_space, OF head])
  have 2: "dropWhile is_space b = b"
    by (rule dropWhile_id [of b is_space, OF b_tail])
  have s: "strip s = rev b" by (simp only: strip_def a_def b_def)
  have "strip (rev b) = rev b"
    by (simp only: strip_def 1 rev_rev_ident 2)
  with s show ?thesis by simp
qed

lemma update_fresh: "k \<notin> fst ` set al \<Longrightarrow> AList.update k v al = al @ [(k, v)]"
  by (induction al) auto

lemma set_delete_distinct:
  "distinct (map fst al) \<Longrightarrow> (k, v) \<in> set al \<Longrightarrow> set (AList.delete k al) = set al - {(k, v)}"
  by (induction al) (auto simp: rev_image_eqI)

lemma isfile_map_of: "isfile es n = (\<exists>c. map_of es n = Some (File c))"
  by (simp add: isfile_def split: option.split node.split)

lemma isfile_iff:
  "distinct (map fst es) \<Longrightarrow> isfile es n = (\<exists>c. (n, File c) \<in> set es)"
  by (simp add: isfile_map_of)


lemma nombre_final_File [simp]: "nombre_final (n, File c) = strip n"
  by (simp add: nombre_final_def)

lemma nombre_final_Dir [simp]: "nombre_final (n, Dir sub) = n"
  by (simp add: nombre_final_def)

lemma nombre_final_strip: "nombre_final (strip a, x) = strip a"
  by (cases x) (simp_all add: strip_idem)

lemma os_rename_fresh:
  assumes d0: "distinct (map fst cur)" and d1: "distinct (map nombre_final cur)"
    and f: "(a, File c) \<in> set cur" and ne: "a \<noteq> strip a"
    and r: "os_rename cur a (strip a) = Inr cur1"
  shows "strip a \<notin> fst ` set cur" and "cur1 = AList.delete a cur @ [(strip a, File c)]"
proof -
  have inj: "inj_on nombre_final (set cur)"
    using d1 by (simp add: distinct_map)
  show fresh: "strip a \<notin> fst ` set cur"
  proof
    assume "strip a \<in> fst ` set cur"
    then obtain x where x: "(strip a, x) \<in> set cur" by auto
    have "nombre_final (strip a, x) = nombre_final (a, File c)"
      by (simp add: nombre_final_strip)
    from inj_onD [OF inj this x f] have "(strip a, x) = (a, File c)" .
    with ne show False by simp
  qed
  have ma: "map_of cur a = Some (File c)"
    using d0 f by simp
  have ms: "map_of cur (strip a) = None"
    using fresh by (simp add: map_of_eq_None_iff)
  from r ma ms have "cur1 = AList.update (strip a) (File c) (AList.delete a cur)"
    by (simp add: os_rename_def split: if_splits)
  moreover have "strip a \<notin> fst ` set (AList.delete a cur)"
    using fresh by (auto simp: AList.delete_eq)
  ultimately show "cur1 = AList.delete a cur @ [(strip a, File c)]"
    by (simp add: update_fresh)
qed

lemma limpiar_nombres_set:
  assumes "distinct (map fst cur)" and "distinct (map nombre_final cur)"
    and "limpiar_nombres ns \<lparr>root = cur, log_messages = lg\<rparr> = Inr st'"
  shows "set (root st') = tras ns ` set cur \<and> distinct (map fst (root st'))"
  using assms
proof (induction ns arbitrary: cur lg)
  case Nil
  then show ?case by (auto simp: tras_def)
next
  case (Cons a rest)
  note d0 = Cons.prems(1) and d1 = Cons.prems(2) and run = Cons.prems(3)
  have inj: "inj_on nombre_final (set cur)"
    using d1 by (simp add: distinct_map)
  show ?case
  proof (cases "isfile cur a \<and> a \<noteq> strip a")
    case True
    then obtain c where f: "(a, File c) \<in> set cur" and ne: "a \<noteq> strip a"
      using isfile_iff [OF d0] by auto
    from run True obtain cur1 where
      r: "os_rename cur a (strip a) = Inr cur1"
      and run1: "limpiar_nombres rest
                  \<lparr>root = cur1, log_messages = lg @ [Renombrado a (strip a)]\<rparr> = Inr st'"
      by (auto simp: Let_def split: sum.splits)
    note fresh = os_rename_fresh(1) [OF d0 d1 f ne r]
    note cur1 = os_rename_fresh(2) [OF d0 d1 f ne r]
    have sd: "set (AList.delete a cur) = set cur - {(a, File c)}"
      by (rule set_delete_distinct [OF d0 f])
    have d0': "distinct (map fst cur1)"
      using fresh d0 sd by (auto simp: cur1 distinct_delete)
    have "distinct (map nombre_final (AList.delete a cur))"
      using d1 by (simp add: AList.delete_eq distinct_map_filter)
    moreover have "strip a \<notin> nombre_final ` set (AList.delete a cur)"
    proof
      assume "strip a \<in> nombre_final ` set (AList.delete a cur)"
      then obtain e where e0: "e \<in> set (AList.delete a cur)" and e1: "strip a = nombre_final e"
        by (rule imageE)
      from e0 have "e \<in> set cur - {(a, File c)}" by (simp only: sd)
      with e1 have e: "e \<in> set cur" "e \<noteq> (a, File c)" "nombre_final e = strip a"
        by simp_all
      then have "nombre_final e = nombre_final (a, File c)" by simp
      from inj_onD [OF inj this e(1) f] have "e = (a, File c)" .
      with e(2) show False by simp
    qed
    ultimately have d1': "distinct (map nombre_final cur1)"
      by (simp add: cur1 strip_idem)
    from Cons.IH [OF d0' d1' run1]
    have res: "set (root st') = tras rest ` set cur1" and dres: "distinct (map fst (root st'))"
      by simp_all
    have "tras rest ` set cur1 = tras (a # rest) ` set cur"
    proof -
      have s1: "set cur1 = insert (strip a, File c) (set cur - {(a, File c)})"
        by (simp add: cur1 sd)
      have new: "tras rest (strip a, File c) = tras (a # rest) (a, File c)"
        by (simp add: tras_def strip_idem)
      have old: "tras rest e = tras (a # rest) e" if "e \<in> set cur - {(a, File c)}" for e
      proof -
        from that have "fst e \<noteq> a"
          using d0 f by (metis DiffD1 DiffD2 eq_key_imp_eq_value insertI1 prod.collapse)
        then show ?thesis by (simp add: tras_def)
      qed
      have "tras rest ` set cur1
            = insert (tras (a # rest) (a, File c)) (tras (a # rest) ` (set cur - {(a, File c)}))"
        using old by (simp add: s1 new)
      also have "\<dots> = tras (a # rest) ` insert (a, File c) (set cur - {(a, File c)})"
        by (rule image_insert [symmetric])
      also have "insert (a, File c) (set cur - {(a, File c)}) = set cur"
        using f by auto
      finally show ?thesis .
    qed
    with res dres show ?thesis by simp
  next
    case False
    with run have run1: "limpiar_nombres rest \<lparr>root = cur, log_messages = lg\<rparr> = Inr st'"
      by (auto simp: Let_def split: if_splits)
    from Cons.IH [OF d0 d1 run1]
    have res: "set (root st') = tras rest ` set cur" and dres: "distinct (map fst (root st'))"
      by simp_all
    have "tras rest e = tras (a # rest) e" if e: "e \<in> set cur" for e
    proof (cases "fst e = a")
      case ne: False
      then show ?thesis by (simp add: tras_def)
    next
      case True
      have "nombre_final e = a"
      proof (cases "snd e")
        case (File c)
        with True e have "(a, File c) \<in> set cur" by (metis prod.collapse)
        then have "isfile cur a" using isfile_iff [OF d0] by auto
        with False have "a = strip a" by simp
        with File True show ?thesis by (simp add: nombre_final_def)
      next
        case (Dir sub)
        with True show ?thesis by (simp add: nombre_final_def)
      qed
      with True show ?thesis by (simp add: tras_def)
    qed
    then have "tras rest ` set cur = tras (a # rest) ` set cur"
      by (rule image_cong [OF refl])
    with res dres show ?thesis by simp
  qed
qed


text \<open>
  Claim C7, as amended. When no two entries of the working directory are meant to end
  with the same name, a cleaning of the file names that completes keeps the content of
  every regular file, under its name without the white space around it.
\<close>

theorem limpiar_nombres_keeps_contents:
  assumes "distinct (map fst es)" and "distinct (map nombre_final es)"
    and "limpiar_nombres (listdir es) \<lparr>root = es, log_messages = lg\<rparr> = Inr st'"
    and "(n, File c) \<in> set es"
  shows "map_of (root st') (strip n) = Some (File c)"
proof -
  from limpiar_nombres_set [OF assms(1-3)]
  have s: "set (root st') = tras (listdir es) ` set es" and d: "distinct (map fst (root st'))"
    by simp_all
  have "n \<in> set (listdir es)"
    using assms(4) by (simp add: listdir_def rev_image_eqI)
  then have "tras (listdir es) (n, File c) = (strip n, File c)"
    by (simp add: tras_def)
  with assms(4) have "(strip n, File c) \<in> tras (listdir es) ` set es"
    by (metis imageI)
  with s have "(strip n, File c) \<in> set (root st')" by simp
  with d show ?thesis by simp
qed

lemma limpiar_nombres_example:
  "limpiar_nombres
     (listdir [('' a.txt '', File ''nueva''), (''b.txt'', File ''vieja''), (''B85536134'', Dir [])])
     \<lparr>root = [('' a.txt '', File ''nueva''), (''b.txt'', File ''vieja''), (''B85536134'', Dir [])],
      log_messages = []\<rparr>
   = Inr \<lparr>root = [(''b.txt'', File ''vieja''), (''B85536134'', Dir []), (''a.txt'', File ''nueva'')],
          log_messages = [Renombrado '' a.txt '' ''a.txt'']\<rparr>"
  by code_simp

text \<open>
  A file to rename beside a file and a folder that keep their names.
\<close>

theorem limpiar_nombres_keeps_contents_witness:
  "map_of [(''b.txt'', File ''vieja''), (''B85536134'', Dir []), (''a.txt'', File ''nueva'')] ''a.txt''
     = Some (File ''nueva'')"
proof -
  let ?es = "[('' a.txt '', File ''nueva''), (''b.txt'', File ''vieja''), (''B85536134'', Dir [])]"
  have d0: "distinct (map fst ?es)" by simp
  have d1: "distinct (map nombre_final ?es)" by code_simp
  have m: "('' a.txt '', File ''nueva'') \<in> set ?es" by simp
  have t: "strip '' a.txt '' = ''a.txt''" by code_simp
  from limpiar_nombres_keeps_contents [OF d0 d1 limpiar_nombres_example m]
  show ?thesis by (simp only: t state.simps)
qed

text \<open>
  Claim C7 as stated fails: the name of the first file, without its leading blank, is the
  name of the second; \<open>os.rename\<close> replaces the second file, the cleaning completes and
  logs one renaming, and the content of the second file is in the directory no more.
\<close>

theorem limpiar_nombres_overwrites_counterexample:
  "map_of [('' a.txt'', File ''nueva''), (''a.txt'', File ''vieja'')] ''a.txt'' = Some (File ''vieja'')
   \<and> limpiar_nombres (listdir [('' a.txt'', File ''nueva''), (''a.txt'', File ''vieja'')])
        \<lparr>root = [('' a.txt'', File ''nueva''), (''a.txt'', File ''vieja'')], log_messages = []\<rparr>
      = Inr \<lparr>root = [(''a.txt'', File ''nueva'')],
             log_messages = [Renombrado '' a.txt'' ''a.txt'']\<rparr>"
  by code_simp

section \<open>Properties of the move of a PDF and of the files of its base name\<close>

lemma resolve_child:
  "resolve es dest = Some (Dir D) \<Longrightarrow> resolve es (dest @ [n]) = map_of D n"
proof (induction dest arbitrary: es)
  case Nil
  then show ?case by (simp split: option.split node.split)
next
  case (Cons c cs)
  then show ?case
    by (cases "map_of es c") (auto split: node.splits if_splits)
qed

lemma resolve_hd_dir:
  "resolve es dest = Some (Dir D) \<Longrightarrow> dest \<noteq> [] \<Longrightarrow> \<exists>x. map_of es (hd dest) = Some (Dir x)"
  by (cases dest) (auto split: option.splits node.splits if_splits)

lemma map_of_update_pt:
  "map_of (AList.update k v al) m = (if m = k then Some v else map_of al m)"
  by (simp add: update_conv')

lemma map_of_delete_pt:
  "map_of (AList.delete k al) m = (if m = k then None else map_of al m)"
  by (simp add: delete_conv')

lemma shutil_put_dest:
  "shutil_put es dest name nd = Inr es' \<Longrightarrow> resolve es dest = Some (Dir D) \<Longrightarrow>
   (\<forall>sub. map_of D name \<noteq> Some (Dir sub)) \<Longrightarrow>
   \<exists>D'. resolve es' dest = Some (Dir D')
        \<and> (\<forall>m. map_of D' m = (if m = name then Some nd else map_of D m))"
proof (induction dest arbitrary: es es')
  case Nil
  from Nil.prems(2) have D: "D = es" by simp
  with Nil.prems(1,3) have "es' = AList.update name nd es"
    by (auto split: option.splits node.splits if_splits)
  then have "resolve es' [] = Some (Dir es')"
    "\<forall>m. map_of es' m = (if m = name then Some nd else map_of D m)"
    by (simp_all only: resolve.simps map_of_update_pt D simp_thms)
  then show ?case by blast
next
  case (Cons c cs)
  from Cons.prems(1) obtain sub sub' where
    c: "map_of es c = Some (Dir sub)" and p: "shutil_put sub cs name nd = Inr sub'"
    and e: "es' = AList.update c (Dir sub') es"
    by (auto split: option.splits node.splits sum.splits)
  from Cons.prems(2) c have r: "resolve sub cs = Some (Dir D)" by simp
  from Cons.IH [OF p r Cons.prems(3)] obtain D' where
    D': "resolve sub' cs = Some (Dir D')"
    "\<forall>m. map_of D' m = (if m = name then Some nd else map_of D m)" by blast
  have "resolve es' (c # cs) = Some (Dir D')"
    by (simp add: e map_of_update_pt D'(1))
  with D'(2) show ?case by blast
qed

lemma shutil_put_root:
  "shutil_put es dest name nd = Inr es' \<Longrightarrow> dest \<noteq> [] \<Longrightarrow> m \<noteq> hd dest \<Longrightarrow>
   map_of es' m = map_of es m"
  by (cases dest) (auto simp: map_of_update_pt split: option.splits node.splits sum.splits)

lemma shutil_move_effect:
  assumes mv: "shutil_move es name dest = Inr es'"
    and ne: "dest \<noteq> []" and nh: "name \<noteq> hd dest"
    and f: "map_of es name = Some (File c)"
    and r: "resolve es dest = Some (Dir D)"
    and nc: "\<forall>sub. map_of D name \<noteq> Some (Dir sub)"
  shows "\<exists>D'. resolve es' dest = Some (Dir D')
          \<and> (\<forall>m. map_of D' m = (if m = name then Some (File c) else map_of D m))
          \<and> map_of es' name = None
          \<and> (\<forall>m. m \<noteq> name \<longrightarrow> m \<noteq> hd dest \<longrightarrow> map_of es' m = map_of es m)"
proof -
  from mv f obtain es1 where p: "shutil_put es dest name (File c) = Inr es1"
    and e: "es' = AList.delete name es1"
    by (auto simp: shutil_move_def split: sum.splits)
  from shutil_put_dest [OF p r nc] obtain D' where
    D': "resolve es1 dest = Some (Dir D')"
    "\<forall>m. map_of D' m = (if m = name then Some (File c) else map_of D m)" by blast
  obtain d ds where d: "dest = d # ds" using ne by (cases dest) auto
  have "map_of es' d = map_of es1 d"
    using nh d by (simp add: e map_of_delete_pt)
  then have "resolve es' dest = resolve es1 dest"
    by (simp add: d)
  with D' have 1: "resolve es' dest = Some (Dir D')" by simp
  have 2: "map_of es' name = None" by (simp add: e map_of_delete_pt)
  have 3: "\<forall>m. m \<noteq> name \<longrightarrow> m \<noteq> hd dest \<longrightarrow> map_of es' m = map_of es m"
    using shutil_put_root [OF p ne] by (simp add: e map_of_delete_pt)
  from 1 D'(2) 2 3 show ?thesis by blast
qed

lemma makedirs_no_file:
  "makedirs es dest = Inr es1 \<Longrightarrow> dest \<noteq> [] \<Longrightarrow> map_of es (hd dest) \<noteq> Some (File c)"
  by (cases dest) (auto split: option.splits node.splits sum.splits)

lemma map_of_snoc_pt:
  "map_of (es @ [(k, v)]) m = (case map_of es m of Some x \<Rightarrow> Some x | None \<Rightarrow> if m = k then Some v else None)"
  by (simp add: map_add_def split: option.split)

lemma makedirs_root:
  "makedirs es dest = Inr es1 \<Longrightarrow> dest \<noteq> [] \<Longrightarrow> m \<noteq> hd dest \<Longrightarrow> map_of es1 m = map_of es m"
  by (cases dest)
     (auto simp: map_of_update_pt map_of_snoc_pt simp del: map_of_append
           split: option.splits node.splits sum.splits)

lemma makedirs_distinct:
  "makedirs es dest = Inr es1 \<Longrightarrow> distinct (map fst es) \<Longrightarrow> distinct (map fst es1)"
  by (cases dest)
     (auto simp: distinct_update map_of_eq_None_iff split: option.splits node.splits sum.splits)

lemma makedirs_dest:
  "makedirs es dest = Inr es1 \<Longrightarrow>
   \<exists>D1. resolve es1 dest = Some (Dir D1) \<and> (resolve es dest = Some (Dir D1) \<or> D1 = [])"
proof (induction dest arbitrary: es es1)
  case Nil
  then show ?case by simp
next
  case (Cons c cs)
  show ?case
  proof (cases "map_of es c")
    case None
    with Cons.prems obtain sub where m: "makedirs [] cs = Inr sub" and e: "es1 = es @ [(c, Dir sub)]"
      by (auto split: sum.splits)
    from Cons.IH [OF m] obtain D1 where
      D1: "resolve sub cs = Some (Dir D1)" "resolve [] cs = Some (Dir D1) \<or> D1 = []" by blast
    from D1(2) have "D1 = []" by (cases cs) auto
    moreover have "map_of es1 c = Some (Dir sub)"
      using None by (simp add: e map_add_def)
    ultimately show ?thesis using D1(1) by simp
  next
    case (Some nd)
    with Cons.prems obtain sub sub' where nd: "nd = Dir sub"
      and m: "makedirs sub cs = Inr sub'" and e: "es1 = AList.update c (Dir sub') es"
      by (cases nd) (auto split: sum.splits)
    from Cons.IH [OF m] obtain D1 where
      D1: "resolve sub' cs = Some (Dir D1)" "resolve sub cs = Some (Dir D1) \<or> D1 = []" by blast
    then show ?thesis using Some nd by (auto simp: e map_of_update_pt)
  qed
qed


lemma mover_archivos_effect:
  assumes "mover_archivos ns bn dest es = Inr es'"
    and "distinct ns" and "dest \<noteq> []"
    and "resolve es dest = Some (Dir D)"
    and "\<forall>m sub. fst (splitext m) = bn \<longrightarrow> map_of D m \<noteq> Some (Dir sub)"
  shows "\<exists>D'. resolve es' dest = Some (Dir D')
     \<and> (\<forall>m. map_of D' m =
            (if m \<in> set ns \<and> fst (splitext m) = bn \<and> isfile es m then map_of es m
             else map_of D m))
     \<and> (\<forall>m. m \<noteq> hd dest \<longrightarrow> map_of es' m =
            (if m \<in> set ns \<and> fst (splitext m) = bn \<and> isfile es m then None
             else map_of es m))"
  using assms
proof (induction ns arbitrary: es D)
  case Nil
  then show ?case by simp
next
  case (Cons a rest)
  note run = Cons.prems(1) and ne = Cons.prems(3) and r = Cons.prems(4) and nc = Cons.prems(5)
  from Cons.prems(2) have a_rest: "a \<notin> set rest" and d_rest: "distinct rest" by simp_all
  from resolve_hd_dir [OF r ne] obtain x where hd_dir: "map_of es (hd dest) = Some (Dir x)"
    by blast
  then have hd_nofile: "\<not> isfile es (hd dest)" by (simp add: isfile_def)
  show ?case
  proof (cases "fst (splitext a) = bn \<and> isfile es a")
    case True
    then obtain c where f: "map_of es a = Some (File c)"
      by (auto simp: isfile_map_of)
    from True hd_nofile have nh: "a \<noteq> hd dest" by auto
    from run True obtain es1 where mv: "shutil_move es a dest = Inr es1"
      and run1: "mover_archivos rest bn dest es1 = Inr es'"
      by (auto split: sum.splits)
    from nc True have nca: "\<forall>sub. map_of D a \<noteq> Some (Dir sub)" by simp
    from shutil_move_effect [OF mv ne nh f r nca] obtain D1 where
      r1: "resolve es1 dest = Some (Dir D1)"
      and D1: "\<forall>m. map_of D1 m = (if m = a then Some (File c) else map_of D m)"
      and gone: "map_of es1 a = None"
      and frame: "\<forall>m. m \<noteq> a \<longrightarrow> m \<noteq> hd dest \<longrightarrow> map_of es1 m = map_of es m"
      by blast
    have nc1: "\<forall>m sub. fst (splitext m) = bn \<longrightarrow> map_of D1 m \<noteq> Some (Dir sub)"
      using nc D1 by simp
    from Cons.IH [OF run1 d_rest ne r1 nc1] obtain D' where
      r': "resolve es' dest = Some (Dir D')"
      and D': "\<forall>m. map_of D' m =
            (if m \<in> set rest \<and> fst (splitext m) = bn \<and> isfile es1 m then map_of es1 m
             else map_of D1 m)"
      and root': "\<forall>m. m \<noteq> hd dest \<longrightarrow> map_of es' m =
            (if m \<in> set rest \<and> fst (splitext m) = bn \<and> isfile es1 m then None
             else map_of es1 m)"
      by blast
    from resolve_hd_dir [OF r1 ne] have hd_nofile1: "\<not> isfile es1 (hd dest)"
      by (auto simp: isfile_def)
    have same_file: "isfile es1 m = isfile es m" if "m \<noteq> a" for m
    proof (cases "m = hd dest")
      case True
      with hd_nofile hd_nofile1 show ?thesis by simp
    next
      case False
      with that frame show ?thesis by (simp add: isfile_def)
    qed
    have not_a: "\<not> isfile es1 a" using gone by (simp add: isfile_def)
    have A: "map_of D' m =
            (if m \<in> set (a # rest) \<and> fst (splitext m) = bn \<and> isfile es m then map_of es m
             else map_of D m)" for m
    proof (cases "m = a")
      case True
      with D' D1 a_rest f \<open>fst (splitext a) = bn \<and> isfile es a\<close> show ?thesis by simp
    next
      case False
      show ?thesis
      proof (cases "m \<in> set rest \<and> fst (splitext m) = bn \<and> isfile es m")
        case True
        with hd_nofile have "m \<noteq> hd dest" by auto
        with True False D' frame same_file [OF False] show ?thesis by simp
      next
        case nm: False
        with False D' D1 same_file [OF False] show ?thesis by auto
      qed
    qed
    have B: "map_of es' m =
            (if m \<in> set (a # rest) \<and> fst (splitext m) = bn \<and> isfile es m then None
             else map_of es m)" if "m \<noteq> hd dest" for m
    proof (cases "m = a")
      case True
      with root' that a_rest gone \<open>fst (splitext a) = bn \<and> isfile es a\<close> show ?thesis by simp
    next
      case False
      with root' that frame same_file [OF False] show ?thesis by auto
    qed
    from r' A B show ?thesis by blast
  next
    case False
    with run have run1: "mover_archivos rest bn dest es = Inr es'"
      by (auto split: if_splits)
    from Cons.IH [OF run1 d_rest ne r nc] obtain D' where
      r': "resolve es' dest = Some (Dir D')"
      and D': "\<forall>m. map_of D' m =
            (if m \<in> set rest \<and> fst (splitext m) = bn \<and> isfile es m then map_of es m
             else map_of D m)"
      and root': "\<forall>m. m \<noteq> hd dest \<longrightarrow> map_of es' m =
            (if m \<in> set rest \<and> fst (splitext m) = bn \<and> isfile es m then None
             else map_of es m)"
      by blast
    have A: "\<forall>m. map_of D' m =
            (if m \<in> set (a # rest) \<and> fst (splitext m) = bn \<and> isfile es m then map_of es m
             else map_of D m)"
      using D' False by auto
    have B: "\<forall>m. m \<noteq> hd dest \<longrightarrow> map_of es' m =
            (if m \<in> set (a # rest) \<and> fst (splitext m) = bn \<and> isfile es m then None
             else map_of es m)"
      using root' False by auto
    from r' A B show ?thesis by blast
  qed
qed

text \<open>
  One PDF of the loop, when its processing completes: a regular file of the working
  directory with the base name of the PDF is in the destination folder afterwards, with
  its content, and in the working directory no more, provided the destination folder
  had no sub-folder called like a file of that base name.
\<close>

lemma procesar_pdf_moves_group:
  assumes wf: "distinct (map fst (root st))"
    and run: "procesar_pdf orden leer filename st = Inr st'"
    and dest: "dest = fst (clasificar filename
                      (buscar_cif_en_pdf orden (abrir leer (root st) filename)))"
    and noclash: "\<forall>D m sub. resolve (root st) dest = Some (Dir D) \<longrightarrow>
                    fst (splitext m) = fst (splitext filename) \<longrightarrow> map_of D m \<noteq> Some (Dir sub)"
    and reg: "(n, File c) \<in> set (root st)"
    and grp: "fst (splitext n) = fst (splitext filename)"
  shows "resolve (root st') (dest @ [n]) = Some (File c) \<and> map_of (root st') n = None"
proof -
  have ne: "dest \<noteq> []" unfolding dest by (rule clasificar_nonempty)
  from run dest obtain es1 es' where mk: "makedirs (root st) dest = Inr es1"
    and mv: "mover_archivos (listdir es1) (fst (splitext filename)) dest es1 = Inr es'"
    and st': "root st' = es'"
    by (auto simp: procesar_pdf_def Let_def split: prod.splits sum.splits)
  have f0: "map_of (root st) n = Some (File c)" using wf reg by simp
  with makedirs_no_file [OF mk ne] have nh: "n \<noteq> hd dest" by auto
  have f1: "map_of es1 n = Some (File c)"
    using makedirs_root [OF mk ne nh] f0 by simp
  then have mem: "n \<in> set (listdir es1)"
    by (auto simp: listdir_def dest: map_of_SomeD intro: rev_image_eqI)
  have d1: "distinct (listdir es1)"
    using makedirs_distinct [OF mk wf] by (simp add: listdir_def)
  from makedirs_dest [OF mk] obtain D1 where r1: "resolve es1 dest = Some (Dir D1)"
    and D1: "resolve (root st) dest = Some (Dir D1) \<or> D1 = []" by blast
  have nc1: "\<forall>m sub. fst (splitext m) = fst (splitext filename) \<longrightarrow> map_of D1 m \<noteq> Some (Dir sub)"
    using D1 noclash by auto
  from mover_archivos_effect [OF mv d1 ne r1 nc1] obtain D' where
    r': "resolve es' dest = Some (Dir D')"
    and D': "\<forall>m. map_of D' m =
            (if m \<in> set (listdir es1) \<and> fst (splitext m) = fst (splitext filename) \<and> isfile es1 m
             then map_of es1 m else map_of D1 m)"
    and root': "\<forall>m. m \<noteq> hd dest \<longrightarrow> map_of es' m =
            (if m \<in> set (listdir es1) \<and> fst (splitext m) = fst (splitext filename) \<and> isfile es1 m
             then None else map_of es1 m)"
    by blast
  have isf: "isfile es1 n" using f1 by (simp add: isfile_def)
  have "map_of D' n = Some (File c)" using D' mem grp isf f1 by simp
  then have 1: "resolve es' (dest @ [n]) = Some (File c)"
    using resolve_child [OF r'] by simp
  have 2: "map_of es' n = None" using root' nh mem grp isf by simp
  from 1 2 show ?thesis by (simp add: st')
qed

text \<open>
  A run on three uploaded files: the PDF with a recognized code and the sheet of its base
  name end in the folder of the code, the unreadable PDF in the unidentified folder, and
  the folders left empty are removed.
\<close>

lemma run_invoice_example:
  "procesar_y_clasificar remdups (\<lambda>content. Opened [PageText (Some content)])
     \<lparr>root = [(''invoice1.pdf'', File ''CIF B85536134''), (''invoice1.xlsx'', File ''hoja''),
              (''bad.pdf'', File '''')],
      log_messages = []\<rparr>
   = Inr \<lparr>root =
            [(''B85536134'',
              Dir [(''invoice1.pdf'', File ''CIF B85536134''), (''invoice1.xlsx'', File ''hoja'')]),
             (''Sin identificar'', Dir [(''bad.pdf'', File '''')])],
          log_messages =
            [CifUnico ''invoice1.pdf'' ''B85536134'', SinCif ''bad.pdf'',
             CarpetaEliminada ''A80652928'', CarpetaEliminada ''B84425131'',
             CarpetaEliminada ''A81989360'', CarpetaEliminada ''B81500043'',
             CarpetaEliminada ''A79492286'', CarpetaEliminada ''G83844316'',
             CarpetaEliminada ''A81944720'', CarpetaEliminada ''B60924131'',
             CarpetaEliminada ''B47384649'', CarpetaEliminada ''A31604903'']\<rparr>"
  by code_simp

text \<open>
  Claim C2 at three uploaded files. \<open>x.pdf\<close> holds the recognized code A80652928 and the
  code B12345678, so it goes to the folder \<open>A80652928/B12345678\<close>. \<open>B12345678.pdf\<close> holds
  A80652928 alone and goes to \<open>A80652928\<close>; the file \<open>B12345678\<close> has its base name, and
  \<open>shutil.move\<close> to \<open>A80652928/B12345678\<close>, which is a directory by then, puts that file
  inside it: the run completes and the file is not in the folder of its PDF. With the two
  PDFs listed in the other order the file arrives first and \<open>os.makedirs\<close> raises for
  \<open>x.pdf\<close>, which stays where it was.
\<close>

theorem sidecar_not_with_its_pdf:
  "procesar_y_clasificar remdups (\<lambda>content. Opened [PageText (Some content)])
     \<lparr>root = [(''x.pdf'', File ''Emisor A80652928, receptor B12345678''),
              (''B12345678.pdf'', File ''Factura A80652928''),
              (''B12345678'', File ''datos'')],
      log_messages = []\<rparr>
   = Inr \<lparr>root =
            [(''A80652928'',
              Dir [(''B12345678'',
                    Dir [(''x.pdf'', File ''Emisor A80652928, receptor B12345678''),
                         (''B12345678'', File ''datos'')]),
                   (''B12345678.pdf'', File ''Factura A80652928'')])],
          log_messages =
            [MultiplesCifs ''x.pdf'' ''A80652928'' ''B12345678'',
             CifUnico ''B12345678.pdf'' ''A80652928'',
             CarpetaEliminada ''B85536134'', CarpetaEliminada ''B84425131'',
             CarpetaEliminada ''A81989360'', CarpetaEliminada ''B81500043'',
             CarpetaEliminada ''A79492286'', CarpetaEliminada ''G83844316'',
             CarpetaEliminada ''A81944720'', CarpetaEliminada ''B60924131'',
             CarpetaEliminada ''B47384649'', CarpetaEliminada ''A31604903'',
             CarpetaEliminada ''Sin identificar'']\<rparr>
   \<and> procesar_y_clasificar remdups (\<lambda>content. Opened [PageText (Some content)])
     \<lparr>root = [(''B12345678.pdf'', File ''Factura A80652928''),
              (''x.pdf'', File ''Emisor A80652928, receptor B12345678''),
              (''B12345678'', File ''datos'')],
      log_messages = []\<rparr>
   = Inl FileExistsError"
  by code_simp

section \<open>Properties of the archive\<close>

lemma contiene_nonempty: "contiene es p c \<Longrightarrow> p \<noteq> []"
  by (induction rule: contiene.induct) simp_all

lemma archivos_planos:
  "(x, c) \<in> set (concat (map (\<lambda>(name, nd).
        case nd of
          File content \<Rightarrow>
            (if name \<noteq> ZIP_NAME then [(relpath (dirpath @ [name]), content)] else [])
        | Dir _ \<Rightarrow> []) es))
   \<longleftrightarrow> (\<exists>n. (n, File c) \<in> set es \<and> n \<noteq> ZIP_NAME \<and> x = relpath (dirpath @ [n]))"
  by (induction es) (auto split: node.splits)

lemma archivos_de_iff:
  "((x, c) \<in> set (archivos_de dirpath es)
     \<longleftrightarrow> (\<exists>p. contiene es p c \<and> last p \<noteq> ZIP_NAME \<and> x = relpath (dirpath @ p)))"
  and subcarpetas_de_iff:
  "((x, c) \<in> set (subcarpetas_de dirpath es)
     \<longleftrightarrow> (\<exists>n sub p. (n, Dir sub) \<in> set es \<and> contiene sub p c \<and> last p \<noteq> ZIP_NAME
                 \<and> x = relpath (dirpath @ n # p)))"
proof (induction dirpath es and dirpath es arbitrary: x c and x c
       rule: archivos_de_subcarpetas_de.induct)
  case (1 dirpath es)
  have "(\<exists>p. contiene es p c \<and> last p \<noteq> ZIP_NAME \<and> x = relpath (dirpath @ p))
        \<longleftrightarrow> (\<exists>n. (n, File c) \<in> set es \<and> n \<noteq> ZIP_NAME \<and> x = relpath (dirpath @ [n]))
            \<or> (\<exists>n sub p. (n, Dir sub) \<in> set es \<and> contiene sub p c \<and> last p \<noteq> ZIP_NAME
                 \<and> x = relpath (dirpath @ n # p))"
    (is "?L \<longleftrightarrow> ?A \<or> ?B")
  proof
    assume ?L
    then obtain p where p: "contiene es p c" "last p \<noteq> ZIP_NAME" "x = relpath (dirpath @ p)"
      by blast
    from p(1) show "?A \<or> ?B"
    proof (cases rule: contiene.cases)
      case (en_carpeta n)
      with p show ?thesis by auto
    next
      case (en_subcarpeta n sub q)
      with p contiene_nonempty [OF en_subcarpeta(3)] show ?thesis by auto
    qed
  next
    assume "?A \<or> ?B"
    then show ?L
    proof
      assume ?A
      then obtain n where "(n, File c) \<in> set es" "n \<noteq> ZIP_NAME" "x = relpath (dirpath @ [n])"
        by blast
      then show ?L by (intro exI [of _ "[n]"]) (simp add: contiene.en_carpeta)
    next
      assume ?B
      then obtain n sub q where q: "(n, Dir sub) \<in> set es" "contiene sub q c"
        "last q \<noteq> ZIP_NAME" "x = relpath (dirpath @ n # q)" by blast
      then show ?L
        using contiene_nonempty [OF q(2)]
        by (intro exI [of _ "n # q"]) (simp add: contiene.en_subcarpeta)
    qed
  qed
  moreover have "(x, c) \<in> set (archivos_de dirpath es)
        \<longleftrightarrow> ?A \<or> (x, c) \<in> set (subcarpetas_de dirpath es)"
    by (simp only: archivos_de.simps set_append Un_iff archivos_planos)
  ultimately show ?case
    by (simp only: "1.IH" [of x c])
next
  case (2 dirpath)
  show ?case by simp
next
  case (3 dirpath name uu es)
  then show ?case by auto
next
  case (4 dirpath name sub es)
  have "(x, c) \<in> set (subcarpetas_de dirpath ((name, Dir sub) # es))
        \<longleftrightarrow> (x, c) \<in> set (archivos_de (dirpath @ [name]) sub)
            \<or> (x, c) \<in> set (subcarpetas_de dirpath es)"
    by (simp only: subcarpetas_de.simps set_append Un_iff)
  also have "\<dots> \<longleftrightarrow>
      (\<exists>p. contiene sub p c \<and> last p \<noteq> ZIP_NAME \<and> x = relpath (dirpath @ name # p))
      \<or> (\<exists>n sub' p. (n, Dir sub') \<in> set es \<and> contiene sub' p c \<and> last p \<noteq> ZIP_NAME
                 \<and> x = relpath (dirpath @ n # p))"
    by (simp only: "4.IH"(1) [of x c] "4.IH"(2) [of x c] append_assoc append_Cons append_Nil)
  also have "\<dots> \<longleftrightarrow>
      (\<exists>n sub' p. (n, Dir sub') \<in> set ((name, Dir sub) # es) \<and> contiene sub' p c
                 \<and> last p \<noteq> ZIP_NAME \<and> x = relpath (dirpath @ n # p))"
    by auto
  finally show ?case .
qed


lemma contiene_snoc_zip:
  assumes "last p \<noteq> ZIP_NAME"
  shows "contiene (es @ [(ZIP_NAME, File content)]) p c \<longleftrightarrow> contiene es p c"
proof
  assume "contiene (es @ [(ZIP_NAME, File content)]) p c"
  then show "contiene es p c"
  proof (cases rule: contiene.cases)
    case (en_carpeta n)
    with assms have "(n, File c) \<in> set es" by auto
    with en_carpeta show ?thesis by (simp add: contiene.en_carpeta)
  next
    case (en_subcarpeta n sub q)
    then have "(n, Dir sub) \<in> set es" by auto
    with en_subcarpeta show ?thesis by (simp add: contiene.en_subcarpeta)
  qed
next
  assume "contiene es p c"
  then show "contiene (es @ [(ZIP_NAME, File content)]) p c"
  proof (cases rule: contiene.cases)
    case (en_carpeta n)
    then show ?thesis by (simp add: contiene.en_carpeta)
  next
    case (en_subcarpeta n sub q)
    then have "(n, Dir sub) \<in> set (es @ [(ZIP_NAME, File content)])" by simp
    with en_subcarpeta show ?thesis by (simp only: contiene.en_subcarpeta)
  qed
qed

text \<open>
  When the working directory has no entry called like the archive, the archive holds the
  regular files of the tree that are not called like it, each under its relative path,
  and nothing else.
\<close>

lemma crear_zip_entries:
  assumes "ZIP_NAME \<notin> fst ` set es"
  shows "\<exists>zs. crear_zip es = Inr zs
           \<and> (\<forall>x c. (x, c) \<in> set zs
                  \<longleftrightarrow> (\<exists>p. contiene es p c \<and> last p \<noteq> ZIP_NAME \<and> x = relpath p))"
proof -
  have none: "map_of es ZIP_NAME = None"
    using assms by (simp add: map_of_eq_None_iff)
  have upd: "AList.update ZIP_NAME (File []) es = es @ [(ZIP_NAME, File [])]"
    by (rule update_fresh [OF assms])
  have z: "crear_zip es = Inr (archivos_de [] (es @ [(ZIP_NAME, File [])]))"
    by (simp add: crear_zip_def none upd)
  have "(x, c) \<in> set (archivos_de [] (es @ [(ZIP_NAME, File [])]))
        \<longleftrightarrow> (\<exists>p. contiene es p c \<and> last p \<noteq> ZIP_NAME \<and> x = relpath p)" for x c
    using contiene_snoc_zip [of _ es "[]" c]
    by (simp only: archivos_de_iff append_Nil) blast
  with z show ?thesis by blast
qed

text \<open>
  Claim C9 at two uploaded files. The PDF and the file that shares its base name, called
  like the archive, are both in the folder \<open>B85536134\<close> after the run; the walk that
  fills the archive skips every file of that name, in any folder, and the archive holds
  the PDF alone.
\<close>

theorem archive_omits_sidecar:
  "procesar_y_clasificar remdups (\<lambda>content. Opened [PageText (Some content)])
     \<lparr>root = [(''facturas_clasificadas.pdf'', File ''Factura B85536134''),
              (''facturas_clasificadas.zip'', File ''adjuntos'')],
      log_messages = []\<rparr>
   = Inr \<lparr>root =
            [(''B85536134'',
              Dir [(''facturas_clasificadas.pdf'', File ''Factura B85536134''),
                   (''facturas_clasificadas.zip'', File ''adjuntos'')])],
          log_messages =
            [CifUnico ''facturas_clasificadas.pdf'' ''B85536134'',
             CarpetaEliminada ''A80652928'', CarpetaEliminada ''B84425131'',
             CarpetaEliminada ''A81989360'', CarpetaEliminada ''B81500043'',
             CarpetaEliminada ''A79492286'', CarpetaEliminada ''G83844316'',
             CarpetaEliminada ''A81944720'', CarpetaEliminada ''B60924131'',
             CarpetaEliminada ''B47384649'', CarpetaEliminada ''A31604903'',
             CarpetaEliminada ''Sin identificar'']\<rparr>
   \<and> crear_zip
        [(''B85536134'',
          Dir [(''facturas_clasificadas.pdf'', File ''Factura B85536134''),
               (''facturas_clasificadas.zip'', File ''adjuntos'')])]
     = Inr [(''B85536134/facturas_clasificadas.pdf'', ''Factura B85536134'')]"
  by code_simp

end
